theory Spec2Isabelle
  imports Complex_Main "HOL-Library.Word"
begin

section \<open>CanvasShaderExt: pixel transforms of \<^verbatim>\<open>index.js\<close>\<close>

text \<open>
  The library works on the \<^verbatim>\<open>data\<close> field of a canvas \<^verbatim>\<open>ImageData\<close>: a
  \<^verbatim>\<open>Uint8ClampedArray\<close> of bytes, four per pixel (R, G, B, A), rows first. Channels are
  named by the JavaScript strings \<^verbatim>\<open>"R"\<close>, \<^verbatim>\<open>"G"\<close>, \<^verbatim>\<open>"B"\<close>, \<^verbatim>\<open>"A"\<close>; since
  nothing stops a caller from passing any other string, identifiers are modelled as strings.
\<close>

subsection \<open>Bytes and typed arrays\<close>

type_synonym byte = "8 word"

text \<open>
  Reading a typed array outside its bounds gives \<^verbatim>\<open>undefined\<close> (here \<open>None\<close>);
  writing outside its bounds does nothing, which is what \<open>list_update\<close> does too;
  writing \<^verbatim>\<open>undefined\<close> into a \<^verbatim>\<open>Uint8ClampedArray\<close> stores 0.
\<close>

definition rd :: "byte list \<Rightarrow> nat \<Rightarrow> byte option" where
  "rd d k = (if k < length d then Some (d ! k) else None)"

definition wr :: "byte list \<Rightarrow> nat \<Rightarrow> byte option \<Rightarrow> byte list" where
  "wr d k v = d[k := (case v of None \<Rightarrow> 0 | Some b \<Rightarrow> b)]"

text \<open>\<^verbatim>\<open>const channelIndexes = { R: 0, G: 1, B: 2, A: 3 }\<close>; any other key is \<^verbatim>\<open>undefined\<close>.\<close>

definition channelIndexes :: "string \<Rightarrow> nat option" where
  "channelIndexes c =
     (if c = ''R'' then Some 0 else if c = ''G'' then Some 1
      else if c = ''B'' then Some 2 else if c = ''A'' then Some 3 else None)"

text \<open>The value of \<^verbatim>\<open>new Error(message)\<close> that a \<^verbatim>\<open>throw\<close> raises.\<close>

datatype error = Error string

subsection \<open>swizzle\<close>

text \<open>
  \<^verbatim>\<open>Object.entries(options)\<close> is the list of (key, value) pairs of the options object, in
  the order of the object; the loop of \<^verbatim>\<open>swizzleFrame\<close> names the key \<^verbatim>\<open>source\<close> and
  the value \<^verbatim>\<open>dest\<close>. \<open>swizzleMap\<close> is the object \<^verbatim>\<open>{ R, G, B, A }\<close> built from the four
  bytes read before the loop starts.
\<close>

definition swizzleMap :: "byte list \<Rightarrow> nat \<Rightarrow> string \<Rightarrow> byte option" where
  "swizzleMap d i source =
     (if source = ''R'' then rd d i else if source = ''G'' then rd d (i + 1)
      else if source = ''B'' then rd d (i + 2) else if source = ''A'' then rd d (i + 3)
      else None)"

fun swizzleEntries ::
  "(string \<Rightarrow> byte option) \<Rightarrow> nat \<Rightarrow> (string \<times> string) list \<Rightarrow> byte list \<Rightarrow> error + byte list"
where
  "swizzleEntries m i [] d = Inr d"
| "swizzleEntries m i ((source, dest) # rest) d =
     (if dest = ''R'' then swizzleEntries m i rest (wr d i (m source))
      else if dest = ''G'' then swizzleEntries m i rest (wr d (i + 1) (m source))
      else if dest = ''B'' then swizzleEntries m i rest (wr d (i + 2) (m source))
      else if dest = ''A'' then swizzleEntries m i rest (wr d (i + 3) (m source))
      else Inl (Error ''Oh, so we're doing other data channels now''))"

definition swizzleFrame :: "byte list \<Rightarrow> (string \<times> string) list \<Rightarrow> nat \<Rightarrow> error + byte list" where
  "swizzleFrame d options i = swizzleEntries (swizzleMap d i) i options d"

text \<open>
  \<^verbatim>\<open>for (let i = 0; i < data.data.length; i += 4) swizzleFrame(data, options, i)\<close>:
  the first frame that throws ends the loop.
\<close>

function swizzleFrom :: "(string \<times> string) list \<Rightarrow> nat \<Rightarrow> nat \<Rightarrow> byte list \<Rightarrow> error + byte list" where
  "swizzleFrom options n i d =
     (if i < n
      then (case swizzleFrame d options i of
              Inl e \<Rightarrow> Inl e
            | Inr d' \<Rightarrow> swizzleFrom options n (i + 4) d')
      else Inr d)"
  by pat_completeness auto
termination
  by (relation "measure (\<lambda>(options, n, i, d). n - i)") auto

definition swizzle :: "byte list \<Rightarrow> (string \<times> string) list \<Rightarrow> error + byte list" where
  "swizzle d options = swizzleFrom options (length d) 0 d"

subsection \<open>JavaScript numbers\<close>

text \<open>
  A JavaScript number is a double: NaN, an infinity or a finite value, which is kept here as
  the real number it stands for. An arithmetic operation on finite values gives the exact
  result rounded to the nearest double, a tie going to the even significand (IEEE 754,
  binary64): \<open>nearest\<close> keeps 53 significant bits from \<open>2 ^ -1022\<close> on and a multiple of
  \<open>2 ^ -1074\<close> below, and \<open>rnd\<close> lets a result that rounds to \<open>2 ^ 1024\<close> or beyond overflow
  to an infinity. A decimal literal of the source (\<^verbatim>\<open>12.92\<close>) is the nearest double
  (\<open>rnd 12.92\<close>); whole numbers and halves are doubles as they stand. The two zeros are
  identified (as +0): a zero result has no sign, and a division by zero or a negative power
  of zero gives the infinity that the zero +0 gives.
\<close>

definition roundHalfEven :: "real \<Rightarrow> int" where
  "roundHalfEven x =
     (let f = \<lfloor>x\<rfloor> in
      if of_int f + 1 / 2 < x then f + 1
      else if x < of_int f + 1 / 2 then f
      else if even f then f else f + 1)"

definition pow2 :: "int \<Rightarrow> real" where
  "pow2 e = (if 0 \<le> e then 2 ^ nat e else 1 / 2 ^ nat (- e))"

text \<open>
  The exponent of the binade of a value: the greatest e from -1021 to 1023 with
  \<open>2 ^ e \<le> a\<close>, found from the top, and -1022 when there is none (the lowest binade and
  the subnormal range below it, where doubles are \<open>2 ^ -1074\<close> apart).
\<close>

primrec binade :: "nat \<Rightarrow> real \<Rightarrow> int" where
  "binade 0 a = - 1022"
| "binade (Suc k) a = (if pow2 (int k - 1021) \<le> a then int k - 1021 else binade k a)"

definition exponent :: "real \<Rightarrow> int" where
  "exponent x = binade 2045 \<bar>x\<bar>"

definition ulp :: "real \<Rightarrow> real" where
  "ulp x = pow2 (exponent x - 52)"

definition nearest :: "real \<Rightarrow> real" where
  "nearest x = of_int (roundHalfEven (x / ulp x)) * ulp x"

datatype number = NaN | NInf | Fin real | PInf

definition rnd :: "real \<Rightarrow> number" where
  "rnd x = (let y = nearest x in if 2 ^ 1024 \<le> \<bar>y\<bar> then (if 0 < x then PInf else NInf) else Fin y)"

instantiation number :: "{plus, minus, uminus, times, inverse, abs, ord}"
begin

fun plus_number :: "number \<Rightarrow> number \<Rightarrow> number" where
  "plus_number NaN y = NaN"
| "plus_number x NaN = NaN"
| "plus_number (Fin a) (Fin b) = rnd (a + b)"
| "plus_number PInf NInf = NaN"
| "plus_number NInf PInf = NaN"
| "plus_number PInf y = PInf"
| "plus_number x PInf = PInf"
| "plus_number NInf y = NInf"
| "plus_number x NInf = NInf"

fun uminus_number :: "number \<Rightarrow> number" where
  "uminus_number NaN = NaN"
| "uminus_number NInf = PInf"
| "uminus_number PInf = NInf"
| "uminus_number (Fin a) = Fin (- a)"

definition minus_number :: "number \<Rightarrow> number \<Rightarrow> number" where
  "minus_number x y = x + (- y)"

fun times_number :: "number \<Rightarrow> number \<Rightarrow> number" where
  "times_number NaN y = NaN"
| "times_number x NaN = NaN"
| "times_number (Fin a) (Fin b) = rnd (a * b)"
| "times_number (Fin a) PInf = (if a = 0 then NaN else if 0 < a then PInf else NInf)"
| "times_number (Fin a) NInf = (if a = 0 then NaN else if 0 < a then NInf else PInf)"
| "times_number PInf (Fin b) = (if b = 0 then NaN else if 0 < b then PInf else NInf)"
| "times_number NInf (Fin b) = (if b = 0 then NaN else if 0 < b then NInf else PInf)"
| "times_number PInf PInf = PInf"
| "times_number NInf NInf = PInf"
| "times_number PInf NInf = NInf"
| "times_number NInf PInf = NInf"

fun divide_number :: "number \<Rightarrow> number \<Rightarrow> number" where
  "divide_number NaN y = NaN"
| "divide_number x NaN = NaN"
| "divide_number (Fin a) (Fin b) =
     (if b = 0 then (if a = 0 then NaN else if 0 < a then PInf else NInf) else rnd (a / b))"
| "divide_number (Fin a) PInf = Fin 0"
| "divide_number (Fin a) NInf = Fin 0"
| "divide_number PInf (Fin b) = (if 0 \<le> b then PInf else NInf)"
| "divide_number NInf (Fin b) = (if 0 \<le> b then NInf else PInf)"
| "divide_number PInf PInf = NaN"
| "divide_number PInf NInf = NaN"
| "divide_number NInf PInf = NaN"
| "divide_number NInf NInf = NaN"

definition inverse_number :: "number \<Rightarrow> number" where
  "inverse_number x = divide (Fin 1) x"

fun abs_number :: "number \<Rightarrow> number" where
  "abs_number NaN = NaN"
| "abs_number NInf = PInf"
| "abs_number PInf = PInf"
| "abs_number (Fin a) = Fin \<bar>a\<bar>"

text \<open>Comparisons: every comparison with NaN is false.\<close>

fun less_number :: "number \<Rightarrow> number \<Rightarrow> bool" where
  "less_number NaN y = False"
| "less_number x NaN = False"
| "less_number (Fin a) (Fin b) = (a < b)"
| "less_number x NInf = False"
| "less_number PInf y = False"
| "less_number NInf y = True"
| "less_number x PInf = True"

fun less_eq_number :: "number \<Rightarrow> number \<Rightarrow> bool" where
  "less_eq_number NaN y = False"
| "less_eq_number x NaN = False"
| "less_eq_number (Fin a) (Fin b) = (a \<le> b)"
| "less_eq_number NInf y = True"
| "less_eq_number x PInf = True"
| "less_eq_number x NInf = False"
| "less_eq_number PInf y = False"

instance ..

end

text \<open>
  \<^verbatim>\<open>Math.round\<close>: the nearest integer, a tie going up. The result is exact (a double
  beyond \<open>2 ^ 52\<close> is a whole number already).
\<close>

fun Math_round :: "number \<Rightarrow> number" where
  "Math_round (Fin a) = Fin (of_int \<lfloor>a + 1 / 2\<rfloor>)"
| "Math_round x = x"

text \<open>
  \<^verbatim>\<open>Math.pow(base, exponent)\<close>, by the cases of the language standard
  (\<^verbatim>\<open>Number::exponentiate\<close>). A negative finite base has a power only for an integer exponent.
  The standard leaves the precision of a finite power to the implementation: it is taken
  here as the exact power rounded to the nearest double.
\<close>

definition isInteger :: "real \<Rightarrow> bool" where
  "isInteger e = (of_int \<lfloor>e\<rfloor> = e)"

definition isOddInteger :: "real \<Rightarrow> bool" where
  "isOddInteger e = (isInteger e \<and> odd \<lfloor>e\<rfloor>)"

fun Math_pow :: "number \<Rightarrow> number \<Rightarrow> number" where
  "Math_pow base NaN = NaN"
| "Math_pow base (Fin e) =
     (if e = 0 then Fin 1
      else case base of
        NaN \<Rightarrow> NaN
      | PInf \<Rightarrow> (if 0 < e then PInf else Fin 0)
      | NInf \<Rightarrow> (if 0 < e then (if isOddInteger e then NInf else PInf) else Fin 0)
      | Fin b \<Rightarrow>
          (if b = 0 then (if 0 < e then Fin 0 else PInf)
           else if 0 < b then rnd (b powr e)
           else if isInteger e then rnd (if odd \<lfloor>e\<rfloor> then - (\<bar>b\<bar> powr e) else \<bar>b\<bar> powr e)
           else NaN))"
| "Math_pow base PInf =
     (case base of
        NaN \<Rightarrow> NaN
      | Fin b \<Rightarrow> (if 1 < \<bar>b\<bar> then PInf else if \<bar>b\<bar> = 1 then NaN else Fin 0)
      | _ \<Rightarrow> PInf)"
| "Math_pow base NInf =
     (case base of
        NaN \<Rightarrow> NaN
      | Fin b \<Rightarrow> (if 1 < \<bar>b\<bar> then Fin 0 else if \<bar>b\<bar> = 1 then NaN else PInf)
      | _ \<Rightarrow> Fin 0)"

text \<open>
  Storing a number into a \<^verbatim>\<open>Uint8ClampedArray\<close> (\<^verbatim>\<open>ToUint8Clamp\<close>): NaN becomes 0, the
  value is clamped to 0..255 and rounded to the nearest integer, a tie going to the even one.
\<close>

fun ToUint8Clamp :: "number \<Rightarrow> byte" where
  "ToUint8Clamp NaN = 0"
| "ToUint8Clamp NInf = 0"
| "ToUint8Clamp PInf = 255"
| "ToUint8Clamp (Fin x) =
     (if x \<le> 0 then 0 else if 255 \<le> x then 255 else word_of_int (roundHalfEven x))"

text \<open>
  A byte read from the array as a number; \<^verbatim>\<open>undefined\<close> (a read out of bounds) acts as NaN
  in every arithmetic operation and in the byte store.
\<close>

definition load :: "byte list \<Rightarrow> nat \<Rightarrow> number" where
  "load d k = (case rd d k of None \<Rightarrow> NaN | Some b \<Rightarrow> Fin (real (unat b)))"

definition store :: "byte list \<Rightarrow> nat \<Rightarrow> number \<Rightarrow> byte list" where
  "store d k v = d[k := ToUint8Clamp v]"

subsection \<open>lerp, clamp, tint2Mult\<close>

definition tint2Mult :: "number \<Rightarrow> number" where
  "tint2Mult tint = (if Fin 0 < tint then tint / Fin 255 else Fin 0)"

definition lerp :: "number \<Rightarrow> number \<Rightarrow> number \<Rightarrow> number" where
  "lerp a b t = a + (b - a) * t"

definition clamp :: "number \<Rightarrow> number \<Rightarrow> number \<Rightarrow> number" where
  "clamp mn mx val = (if val < mn then mn else if mx < val then mx else val)"

subsection \<open>HDR tone mapping\<close>

definition linearToSRGB :: "number \<Rightarrow> number" where
  "linearToSRGB x =
     (if x \<le> rnd 0.0031308 then x * rnd 12.92
      else rnd 1.055 * Math_pow x (Fin 1 / rnd 2.4) - rnd 0.055)"

definition sRGBToLinear :: "number \<Rightarrow> number" where
  "sRGBToLinear x =
     (if x \<le> rnd 0.04045 then x / rnd 12.92
      else Math_pow ((x + rnd 0.055) / rnd 1.055) (rnd 2.4))"

definition exposureDefault :: number where "exposureDefault = Fin 1"
definition contrastDefault :: number where "contrastDefault = Fin 1"
definition saturationDefault :: number where "saturationDefault = Fin 1"
definition highlightCompressionDefault :: number where "highlightCompressionDefault = Fin 1"
definition shadowLiftingDefault :: number where "shadowLiftingDefault = Fin 0"

definition toneA :: number where "toneA = rnd 2.51"
definition toneB :: number where "toneB = rnd 0.03"
definition toneC :: number where "toneC = rnd 2.43"
definition toneD :: number where "toneD = rnd 0.59"
definition toneE :: number where "toneE = rnd 0.14"

definition tonemap :: "number \<Rightarrow> number" where
  "tonemap x = (x * (toneA * x + toneB)) / (x * (toneC * x + toneD) + toneE)"

definition hdrToSdr ::
  "number \<Rightarrow> number \<Rightarrow> number \<Rightarrow> number \<Rightarrow> number \<Rightarrow> number \<Rightarrow> number \<Rightarrow> number \<Rightarrow> number
    \<Rightarrow> number \<times> number \<times> number"
where
  "hdrToSdr r g b intensity exposure contrast saturation highlightCompression shadowLifting =
     (let r = sRGBToLinear (r / Fin 255);
          g = sRGBToLinear (g / Fin 255);
          b = sRGBToLinear (b / Fin 255);
          r = r * (intensity * exposure);
          g = g * (intensity * exposure);
          b = b * (intensity * exposure);
          r = Math_pow r contrast;
          g = Math_pow g contrast;
          b = Math_pow b contrast;
          r = tonemap (r * highlightCompression) + shadowLifting;
          g = tonemap (g * highlightCompression) + shadowLifting;
          b = tonemap (b * highlightCompression) + shadowLifting;
          luminance = rnd 0.2126 * r + rnd 0.7152 * g + rnd 0.0722 * b;
          r = luminance + saturation * (r - luminance);
          g = luminance + saturation * (g - luminance);
          b = luminance + saturation * (b - luminance);
          r = clamp (Fin 0) (Fin 1) r;
          g = clamp (Fin 0) (Fin 1) g;
          b = clamp (Fin 0) (Fin 1) b;
          r = linearToSRGB r;
          g = linearToSRGB g;
          b = linearToSRGB b;
          r = Math_round (r * Fin 255);
          g = Math_round (g * Fin 255);
          b = Math_round (b * Fin 255)
      in (r, g, b))"

text \<open>The call \<^verbatim>\<open>hdrToSdr(r, g, b, intensity)\<close>: the other five parameters take their defaults.\<close>

definition hdrToSdr4 :: "number \<Rightarrow> number \<Rightarrow> number \<Rightarrow> number \<Rightarrow> number \<times> number \<times> number" where
  "hdrToSdr4 r g b intensity =
     hdrToSdr r g b intensity exposureDefault contrastDefault saturationDefault
       highlightCompressionDefault shadowLiftingDefault"

subsection \<open>tint\<close>

definition tintFrame :: "byte list \<Rightarrow> number \<Rightarrow> number \<Rightarrow> number \<Rightarrow> number \<Rightarrow> nat \<Rightarrow> byte list" where
  "tintFrame d r g b intensity i =
     (let d = (if r < Fin 0
               then store d i (clamp (Fin 0) (Fin 255)
                      (lerp (load d i) (Fin 255 - load d i) (tint2Mult (- r))))
               else store d i (clamp (Fin 0) (Fin 255) (Math_round (load d i * tint2Mult r))));
          d = (if g < Fin 0
               then store d (i + 1) (clamp (Fin 0) (Fin 255)
                      (lerp (load d (i + 1)) (Fin 255 - load d (i + 1)) (tint2Mult (- g))))
               else store d (i + 1) (clamp (Fin 0) (Fin 255) (Math_round (load d (i + 1) * tint2Mult g))));
          d = (if b < Fin 0
               then store d (i + 2) (clamp (Fin 0) (Fin 255)
                      (lerp (load d (i + 2)) (Fin 255 - load d (i + 2)) (tint2Mult (- b))))
               else store d (i + 2) (clamp (Fin 0) (Fin 255) (Math_round (load d (i + 2) * tint2Mult b))))
      in if intensity \<noteq> Fin 1
         then (let hdrColor = hdrToSdr4 (load d i) (load d (i + 1)) (load d (i + 2)) intensity;
                   d = store d i (fst hdrColor);
                   d = store d (i + 1) (fst (snd hdrColor));
                   d = store d (i + 2) (snd (snd hdrColor))
               in d)
         else d)"

subsection \<open>The canvas\<close>

text \<open>
  The canvas and its 2d context belong to the \<^verbatim>\<open>canvas\<close> package, which is not part of
  this library's source. A canvas is represented by its width, its height and its pixel
  bytes, four per pixel, rows first (section 3 of the specification). The same record
  serves for an \<^verbatim>\<open>ImageData\<close> and for a context (\<^verbatim>\<open>ctx.canvas.width\<close> is \<open>width ctx\<close>).
\<close>

record ImageData =
  width :: nat
  height :: nat
  data :: "byte list"

type_synonym Context2D = ImageData

text \<open>
  Modelled from the spec: the pixel read of the canvas (section 6, "pixel read (rectangular
  region to flat byte array)"), \<^verbatim>\<open>ctx.getImageData(sx, sy, sw, sh)\<close>. The bytes are copied
  without loss; a pixel outside the canvas reads as transparent black. A rectangle of
  width or height 0, which a canvas refuses, is an empty image here.
\<close>

definition byteAt :: "byte list \<Rightarrow> nat \<Rightarrow> byte" where
  "byteAt d k = (if k < length d then d ! k else 0)"

definition canvasByte :: "Context2D \<Rightarrow> int \<Rightarrow> int \<Rightarrow> nat \<Rightarrow> byte" where
  "canvasByte c x y j =
     (if 0 \<le> x \<and> x < int (width c) \<and> 0 \<le> y \<and> y < int (height c)
      then byteAt (data c) (4 * (nat y * width c + nat x) + j) else 0)"

definition getImageData :: "Context2D \<Rightarrow> int \<Rightarrow> int \<Rightarrow> int \<Rightarrow> int \<Rightarrow> ImageData" where
  "getImageData c sx sy sw sh =
     \<lparr>width = nat sw, height = nat sh,
      data = map (\<lambda>k. canvasByte c (sx + int (k div 4 mod nat sw)) (sy + int (k div 4 div nat sw)) (k mod 4))
               [0..<4 * nat sw * nat sh]\<rparr>"

text \<open>
  Modelled from the spec: the pixel write of the canvas (section 6, "pixel write (flat byte
  array to rectangular region at offset)"), \<^verbatim>\<open>ctx.putImageData(img, dx, dy)\<close>. The bytes
  are copied without loss; pixels that fall outside the canvas are dropped.
\<close>

definition putImageData :: "Context2D \<Rightarrow> ImageData \<Rightarrow> int \<Rightarrow> int \<Rightarrow> Context2D" where
  "putImageData c img dx dy =
     c\<lparr>data :=
         map (\<lambda>k. let x = int (k div 4 mod width c); y = int (k div 4 div width c)
                  in if dx \<le> x \<and> x < dx + int (width img) \<and> dy \<le> y \<and> y < dy + int (height img)
                     then byteAt (data img) (4 * (nat (y - dy) * width img + nat (x - dx)) + k mod 4)
                     else byteAt (data c) k)
             [0..<4 * width c * height c]\<rparr>"

text \<open>
  Modelled from the spec: the buffer allocation of the canvas (section 6),
  \<^verbatim>\<open>new Canvas.Canvas(w, h).getContext("2d")\<close>: a canvas of transparent black.
\<close>

definition createCanvas :: "nat \<Rightarrow> nat \<Rightarrow> Context2D" where
  "createCanvas w h = \<lparr>width = w, height = h, data = replicate (4 * w * h) 0\<rparr>"

text \<open>
  Modelled from the spec: a number given where the canvas expects an integer (a coordinate,
  or a size assigned to \<^verbatim>\<open>canvas.width\<close>). NaN and the infinities become 0, a finite
  value loses its fraction.
\<close>

definition Math_trunc :: "real \<Rightarrow> int" where
  "Math_trunc x = (if 0 \<le> x then \<lfloor>x\<rfloor> else \<lceil>x\<rceil>)"

fun toLong :: "number \<Rightarrow> int" where
  "toLong (Fin x) = Math_trunc x"
| "toLong x = 0"

abbreviation num :: "nat \<Rightarrow> number" where
  "num n \<equiv> Fin (real n)"

text \<open>
  \<^verbatim>\<open>ctx.drawImage(source.canvas, 0, 0, w, h)\<close> on a cleared canvas of w by h draws the source
  scaled to that size. How the canvas resamples is not decided by this library: the scaling
  is a parameter \<open>drawImage\<close> of every function that resizes, and gives the resulting
  pixel bytes.
\<close>

type_synonym scaling = "Context2D \<Rightarrow> nat \<Rightarrow> nat \<Rightarrow> byte list"

subsection \<open>resize, duplicate\<close>

definition resize :: "scaling \<Rightarrow> Context2D \<Rightarrow> nat \<Rightarrow> nat \<Rightarrow> Context2D" where
  "resize drawImage ctx newX newY =
     (let newY = (if newY = 0
                  then (let difference = num newX / num (width ctx)
                        in Math_round (num (height ctx) * difference))
                  else num newY);
          oldX = width ctx;
          oldY = height ctx;
          d = getImageData ctx 0 0 (int oldX) (int oldY);
          absX = \<bar>num newX\<bar>;
          absY = \<bar>newY\<bar>;
          newCanvas = putImageData (createCanvas oldX oldY) d 0 0;
          ctx = ctx\<lparr>width := nat (toLong absX), height := nat (toLong absY)\<rparr>
      in ctx\<lparr>data := drawImage newCanvas (width ctx) (height ctx)\<rparr>)"

definition duplicate :: "Context2D \<Rightarrow> Context2D" where
  "duplicate ctx =
     (let d = getImageData ctx 0 0 (int (width ctx)) (int (height ctx));
          newCanvas = createCanvas (width ctx) (height ctx)
      in putImageData newCanvas d 0 0)"

subsection \<open>offset\<close>

text \<open>The \<^verbatim>\<open>%\<close> operator: the remainder has the sign of the dividend.\<close>

fun remainder :: "number \<Rightarrow> number \<Rightarrow> number" where
  "remainder (Fin n) (Fin d) = (if d = 0 then NaN else Fin (n - d * of_int (Math_trunc (n / d))))"
| "remainder (Fin n) PInf = Fin n"
| "remainder (Fin n) NInf = Fin n"
| "remainder x y = NaN"

text \<open>A number used as a condition is false when it is 0 or NaN.\<close>

definition truthy :: "number \<Rightarrow> bool" where
  "truthy x = (x \<noteq> NaN \<and> x \<noteq> Fin 0)"

definition offset :: "Context2D \<Rightarrow> number \<Rightarrow> number \<Rightarrow> Context2D" where
  "offset ctx offsetX offsetY =
     (let sizeX = num (width ctx);
          sizeY = num (height ctx);
          normalizedX = remainder offsetX (Fin 1);
          normalizedY = remainder offsetY (Fin 1);
          xIsNeg = (normalizedX < Fin 0);
          yIsNeg = (normalizedY < Fin 0);
          shiftAmountX = (if truthy normalizedX
                          then Math_round (sizeX * (if xIsNeg then Fin 1 + normalizedX else normalizedX))
                          else Fin 0);
          shiftAmountY = (if truthy normalizedY
                          then Math_round (sizeY * (if yIsNeg then Fin 1 + normalizedY else normalizedY))
                          else Fin 0)
      in if normalizedX \<noteq> Fin 0 \<and> normalizedY = Fin 0 then
           (let right = getImageData ctx (toLong (sizeX - shiftAmountX)) 0 (toLong shiftAmountX) (toLong sizeY);
                left = getImageData ctx 0 0 (toLong (sizeX - shiftAmountX)) (toLong sizeY);
                ctx = putImageData ctx left (toLong shiftAmountX) 0;
                ctx = putImageData ctx right 0 0
            in ctx)
         else if normalizedX = Fin 0 \<and> normalizedY \<noteq> Fin 0 then
           (let bottom = getImageData ctx 0 (toLong (sizeY - shiftAmountY)) (toLong sizeX) (toLong shiftAmountY);
                top = getImageData ctx 0 0 (toLong sizeX) (toLong (sizeY - shiftAmountY));
                ctx = putImageData ctx top 0 (toLong shiftAmountY);
                ctx = putImageData ctx bottom 0 0
            in ctx)
         else if normalizedX \<noteq> Fin 0 \<and> normalizedY \<noteq> Fin 0 then
           (let bottomRight = getImageData ctx (toLong (sizeX - shiftAmountX)) (toLong (sizeY - shiftAmountY))
                                (toLong shiftAmountX) (toLong shiftAmountY);
                bottomLeft = getImageData ctx 0 (toLong (sizeY - shiftAmountY))
                               (toLong (sizeX - shiftAmountX)) (toLong (sizeY - shiftAmountY));
                topRight = getImageData ctx (toLong (sizeX - shiftAmountX)) 0
                             (toLong shiftAmountX) (toLong (sizeY - shiftAmountY));
                topLeft = getImageData ctx 0 0 (toLong (sizeX - shiftAmountX)) (toLong (sizeY - shiftAmountY));
                ctx = putImageData ctx topLeft (toLong shiftAmountX) (toLong shiftAmountY);
                ctx = putImageData ctx topRight 0 (toLong shiftAmountY);
                ctx = putImageData ctx bottomLeft (toLong shiftAmountX) 0;
                ctx = putImageData ctx bottomRight 0 0
            in ctx)
         else ctx)"

subsection \<open>mask\<close>

text \<open>
  The function \<^verbatim>\<open>mask\<close> is named \<open>mask_image\<close> here, \<open>mask\<close> being a constant of the word library.

  \<^verbatim>\<open>for (let i = 0; i < baseData.data.length; i += 4)
    baseData.data[i + 3] = maskData.data[i + channelIndex]\<close>.
  With \<^verbatim>\<open>channelIndex\<close> undefined the index is NaN and the value read is \<^verbatim>\<open>undefined\<close>.
\<close>

function maskLoop :: "byte list \<Rightarrow> nat option \<Rightarrow> nat \<Rightarrow> nat \<Rightarrow> byte list \<Rightarrow> byte list" where
  "maskLoop maskData channelIndex n i baseData =
     (if i < n
      then maskLoop maskData channelIndex n (i + 4)
             (wr baseData (i + 3)
                (case channelIndex of None \<Rightarrow> None | Some k \<Rightarrow> rd maskData (i + k)))
      else baseData)"
  by pat_completeness auto
termination
  by (relation "measure (\<lambda>(maskData, channelIndex, n, i, baseData). n - i)") auto

definition mask_image :: "scaling \<Rightarrow> Context2D \<Rightarrow> Context2D \<Rightarrow> string \<Rightarrow> Context2D" where
  "mask_image drawImage base imageMask channel =
     (let maskDupe = duplicate imageMask;
          maskDupe = (if width base \<noteq> width imageMask \<or> height base \<noteq> height imageMask
                      then resize drawImage maskDupe (width base) (height base) else maskDupe);
          baseData = getImageData base 0 0 (int (width base)) (int (height base));
          maskData = getImageData maskDupe 0 0 (int (width maskDupe)) (int (height maskDupe));
          channelIndex = channelIndexes channel;
          baseData = baseData\<lparr>data :=
                       maskLoop (data maskData) channelIndex (length (data baseData)) 0 (data baseData)\<rparr>
      in putImageData base baseData 0 0)"

subsection \<open>unpack\<close>

function unpackLoop ::
  "nat \<Rightarrow> nat \<Rightarrow> byte list \<times> byte list \<times> byte list \<times> byte list
    \<Rightarrow> byte list \<times> byte list \<times> byte list \<times> byte list"
where
  "unpackLoop n i (r, g, b, a) =
     (if i < n
      then (let r = r[i + 1 := 0]; r = r[i + 2 := 0]; r = r[i + 3 := 255];
                g = g[i := 0]; g = g[i + 2 := 0]; g = g[i + 3 := 255];
                b = b[i := 0]; b = b[i + 1 := 0]; b = b[i + 3 := 255];
                a = wr a i (rd a 3);
                a = wr a (i + 1) (rd a 3);
                a = wr a (i + 2) (rd a 3);
                a = a[i + 3 := 255]
            in unpackLoop n (i + 4) (r, g, b, a))
      else (r, g, b, a))"
  by pat_completeness auto
termination
  by (relation "measure (\<lambda>(n, i, s). n - i)") auto

definition unpack :: "Context2D \<Rightarrow> Context2D \<times> Context2D \<times> Context2D \<times> Context2D" where
  "unpack ctx =
     (let imageData = getImageData ctx 0 0 (int (width ctx)) (int (height ctx));
          rImageData = getImageData ctx 0 0 (int (width ctx)) (int (height ctx));
          gImageData = getImageData ctx 0 0 (int (width ctx)) (int (height ctx));
          bImageData = getImageData ctx 0 0 (int (width ctx)) (int (height ctx));
          aImageData = getImageData ctx 0 0 (int (width ctx)) (int (height ctx));
          rCanvas = createCanvas (width ctx) (height ctx);
          gCanvas = createCanvas (width ctx) (height ctx);
          bCanvas = createCanvas (width ctx) (height ctx);
          aCanvas = createCanvas (width ctx) (height ctx);
          (r, g, b, a) = unpackLoop (length (data imageData)) 0
                           (data rImageData, data gImageData, data bImageData, data aImageData);
          rCanvas = putImageData rCanvas (rImageData\<lparr>data := r\<rparr>) 0 0;
          gCanvas = putImageData gCanvas (gImageData\<lparr>data := g\<rparr>) 0 0;
          bCanvas = putImageData bCanvas (bImageData\<lparr>data := b\<rparr>) 0 0;
          aCanvas = putImageData aCanvas (aImageData\<lparr>data := a\<rparr>) 0 0
      in (rCanvas, gCanvas, bCanvas, aCanvas))"

subsection \<open>pack\<close>

text \<open>
  An entry \<^verbatim>\<open>{ data, channels }\<close> of \<^verbatim>\<open>images\<close> is the pair of its context and of
  \<^verbatim>\<open>Object.entries(channels)\<close>. \<^verbatim>\<open>delete channels[k]\<close> removes the entry whose key is k.
  \<^verbatim>\<open>console.warn\<close> is modelled by a log of the image indexes warned about.
\<close>

type_synonym packImage = "Context2D \<times> (string \<times> string) list"

definition deleteKey :: "string \<Rightarrow> (string \<times> string) list \<Rightarrow> (string \<times> string) list" where
  "deleteKey k channels = filter (\<lambda>e. fst e \<noteq> k) channels"

text \<open>
  The inner loop runs over the entries the object had when the loop started:
  \<^verbatim>\<open>for (const channel of Object.entries(images[i].channels))\<close>, with
  \<^verbatim>\<open>delete images[i].channels[channel[1]]\<close> acting on the object itself.
\<close>

fun claimChannels ::
  "nat \<Rightarrow> (string \<times> string) list \<Rightarrow> (string \<times> string) list \<Rightarrow> string list \<Rightarrow> nat list
    \<Rightarrow> (string \<times> string) list \<times> string list \<times> nat list"
where
  "claimChannels i [] channels packedChannels warned = (channels, packedChannels, warned)"
| "claimChannels i (channel # rest) channels packedChannels warned =
     (if fst channel \<in> set packedChannels
      then claimChannels i rest (deleteKey (snd channel) channels) packedChannels (warned @ [i])
      else claimChannels i rest channels (packedChannels @ [fst channel]) warned)"

function packPrepare ::
  "scaling \<Rightarrow> nat \<Rightarrow> nat \<Rightarrow> nat \<Rightarrow> packImage list \<Rightarrow> string list \<Rightarrow> nat list
    \<Rightarrow> packImage list \<times> string list \<times> nat list"
where
  "packPrepare drawImage sizeX sizeY i images packedChannels warned =
     (if i < length images
      then (case claimChannels i (snd (images ! i)) (snd (images ! i)) packedChannels warned of
              (channels, packedChannels, warned) \<Rightarrow>
                if length channels = 0
                then packPrepare drawImage sizeX sizeY (i + 1)
                       (take i images @ drop (i + 1) images) packedChannels warned
                else if width (fst (images ! i)) \<noteq> sizeX \<or> height (fst (images ! i)) \<noteq> sizeY
                then packPrepare drawImage sizeX sizeY (i + 1)
                       (images[i := (resize drawImage (duplicate (fst (images ! i))) sizeX sizeY, channels)])
                       packedChannels warned
                else packPrepare drawImage sizeX sizeY (i + 1)
                       (images[i := (fst (images ! i), channels)]) packedChannels warned)
      else (images, packedChannels, warned))"
  by pat_completeness auto
termination
  by (relation "measure (\<lambda>(drawImage, sizeX, sizeY, i, images, packedChannels, warned). length images - i)")
     auto

text \<open>
  \<^verbatim>\<open>for (const [to, from] of Object.entries(images[i2].channels))
    packedData.data[i + channelIndexTo] = imagesDatas[i2].data[i + channelIndexFrom]\<close>.
  An undefined \<^verbatim>\<open>channelIndexTo\<close> makes the index NaN, and the write does nothing.
\<close>

fun packEntries :: "byte list \<Rightarrow> nat \<Rightarrow> (string \<times> string) list \<Rightarrow> byte list \<Rightarrow> byte list" where
  "packEntries imageData i [] packedData = packedData"
| "packEntries imageData i ((to, from) # rest) packedData =
     packEntries imageData i rest
       (case channelIndexes to of
          None \<Rightarrow> packedData
        | Some channelIndexTo \<Rightarrow>
            wr packedData (i + channelIndexTo)
              (case channelIndexes from of
                 None \<Rightarrow> None
               | Some channelIndexFrom \<Rightarrow> rd imageData (i + channelIndexFrom)))"

text \<open>\<^verbatim>\<open>for (let i2 = 0; i2 < images.length; i2++)\<close>, over the images with their image data.\<close>

fun packImages :: "(packImage \<times> ImageData) list \<Rightarrow> nat \<Rightarrow> byte list \<Rightarrow> byte list" where
  "packImages [] i packedData = packedData"
| "packImages ((img, imageData) # rest) i packedData =
     packImages rest i (packEntries (data imageData) i (snd img) packedData)"

function packLoop :: "(packImage \<times> ImageData) list \<Rightarrow> nat \<Rightarrow> nat \<Rightarrow> byte list \<Rightarrow> byte list" where
  "packLoop images n i packedData =
     (if i < n then packLoop images n (i + 4) (packImages images i packedData) else packedData)"
  by pat_completeness auto
termination
  by (relation "measure (\<lambda>(images, n, i, packedData). n - i)") auto

text \<open>The result is the packed context, with the log of warnings.\<close>

definition pack :: "scaling \<Rightarrow> packImage list \<Rightarrow> nat \<Rightarrow> nat \<Rightarrow> Context2D \<times> nat list" where
  "pack drawImage images sizeX sizeY =
     (let packed = createCanvas sizeX sizeY;
          packedData = getImageData packed 0 0 (int sizeX) (int sizeY)
      in case packPrepare drawImage sizeX sizeY 0 images [] [] of
           (images, packedChannels, warned) \<Rightarrow>
             (let imagesDatas = map (\<lambda>img. getImageData (fst img) 0 0 (int sizeX) (int sizeY)) images;
                  packedData = packedData\<lparr>data :=
                                 packLoop (zip images imagesDatas) (length (data packedData)) 0
                                   (data packedData)\<rparr>;
                  packed = putImageData packed packedData 0 0
              in (packed, warned)))"

subsection \<open>Notions used to state the properties\<close>

text \<open>
  \<open>chanByte d i c\<close> is the byte of channel \<open>c\<close> in the frame of \<open>d\<close> that starts at \<open>i\<close>.
  \<open>lastSource options t\<close> is the key of the last entry of the options whose value is \<open>t\<close>.
\<close>

definition chanByte :: "byte list \<Rightarrow> nat \<Rightarrow> string \<Rightarrow> byte" where
  "chanByte d i c = (case channelIndexes c of Some k \<Rightarrow> d ! (i + k) | None \<Rightarrow> 0)"

fun lastSource :: "(string \<times> string) list \<Rightarrow> string \<Rightarrow> string option" where
  "lastSource [] c = None"
| "lastSource ((source, dest) # rest) c =
     (case lastSource rest c of
        Some s \<Rightarrow> Some s
      | None \<Rightarrow> if dest = c then Some source else None)"

definition undef0 :: "byte option \<Rightarrow> byte" where
  "undef0 v = (case v of None \<Rightarrow> 0 | Some b \<Rightarrow> b)"

text \<open>
  A whole number from 0 to 255, and a component that \<^verbatim>\<open>hdrToSdr\<close> may return: NaN or
  such a number.
\<close>

definition isByte :: "number \<Rightarrow> bool" where
  "isByte x = (case x of Fin v \<Rightarrow> of_int \<lfloor>v\<rfloor> = v \<and> 0 \<le> v \<and> v \<le> 255 | _ \<Rightarrow> False)"

definition isByteOrNaN :: "number \<Rightarrow> bool" where
  "isByteOrNaN x =
     (case x of NaN \<Rightarrow> True | Fin v \<Rightarrow> of_int \<lfloor>v\<rfloor> = v \<and> 0 \<le> v \<and> v \<le> 255 | _ \<Rightarrow> False)"

text \<open>
  The three channels as \<^verbatim>\<open>hdrToSdr\<close> has them when it reaches its clamp (the code down to
  the comment \<^verbatim>\<open>Clamp values\<close>). \<open>clampedByte v out\<close> says what the component \<open>out\<close> of the
  result is for such a value \<open>v\<close>: NaN when \<open>v\<close> is NaN; 0 when \<open>v\<close> is negative or zero; 255
  when \<open>v\<close> is 1 or more; and a whole number from 0 to 255 when \<open>v\<close> lies between 0 and 1.
\<close>

definition beforeClamp ::
  "number \<Rightarrow> number \<Rightarrow> number \<Rightarrow> number \<Rightarrow> number \<Rightarrow> number \<Rightarrow> number \<Rightarrow> number \<Rightarrow> number
    \<Rightarrow> number \<times> number \<times> number"
where
  "beforeClamp r g b intensity exposure contrast saturation highlightCompression shadowLifting =
     (let r = sRGBToLinear (r / Fin 255);
          g = sRGBToLinear (g / Fin 255);
          b = sRGBToLinear (b / Fin 255);
          r = r * (intensity * exposure);
          g = g * (intensity * exposure);
          b = b * (intensity * exposure);
          r = Math_pow r contrast;
          g = Math_pow g contrast;
          b = Math_pow b contrast;
          r = tonemap (r * highlightCompression) + shadowLifting;
          g = tonemap (g * highlightCompression) + shadowLifting;
          b = tonemap (b * highlightCompression) + shadowLifting;
          luminance = rnd 0.2126 * r + rnd 0.7152 * g + rnd 0.0722 * b;
          r = luminance + saturation * (r - luminance);
          g = luminance + saturation * (g - luminance);
          b = luminance + saturation * (b - luminance)
      in (r, g, b))"

definition clampedByte :: "number \<Rightarrow> number \<Rightarrow> bool" where
  "clampedByte v out =
     (case v of
        NaN \<Rightarrow> out = NaN
      | NInf \<Rightarrow> out = Fin 0
      | PInf \<Rightarrow> out = Fin 255
      | Fin x \<Rightarrow> if x \<le> 0 then out = Fin 0 else if 1 \<le> x then out = Fin 255 else isByte out)"

text \<open>
  The pipeline of \<^verbatim>\<open>hdrToSdr\<close> in the words of the specification (section 4.1): decode
  sRGB to linear (step 1), multiply by intensity times exposure (2), raise to the power
  contrast (3), multiply by highlightCompression, apply the filmic curve and add
  shadowLifting (4); take the luminance L of the three results and move each channel to
  L + saturation * (channel - L) (5); clamp to 0..1 (6: what is below 0 becomes 0, what is
  above 1 becomes 1), encode linear to sRGB (7), scale to 0..255 and round (8).
  \<open>filmicOnly\<close> is the pipeline without steps 2, 3 and 5 and with nothing multiplied or added
  in step 4. \<open>hdrDefaults_spec\<close> is the pipeline without steps 2 and 3, with nothing
  multiplied or added in step 4 and without the factor saturation in step 5.
\<close>

definition decode_spec :: "number \<Rightarrow> number" where
  "decode_spec x = (if x \<le> rnd 0.04045 then x / rnd 12.92 else Math_pow ((x + rnd 0.055) / rnd 1.055) (rnd 2.4))"

definition filmic_spec :: "number \<Rightarrow> number" where
  "filmic_spec x = (x * (rnd 2.51 * x + rnd 0.03)) / (x * (rnd 2.43 * x + rnd 0.59) + rnd 0.14)"








text \<open>
  The tint of one channel in the words of the specification: a negative multiplier moves
  the channel from its value towards 255 - channel, by the fraction \<bar>multiplier\<bar> / 255 of
  the way between the two; any other multiplier multiplies it by multiplier / 255 and
  rounds. \<open>byteNum\<close> is a byte of the array as a number.
\<close>

definition byteNum :: "byte \<Rightarrow> number" where
  "byteNum v = Fin (real (unat v))"

definition tintChannel_spec :: "number \<Rightarrow> number \<Rightarrow> number" where
  "tintChannel_spec channel multiplier =
     (if multiplier < Fin 0
      then channel + ((Fin 255 - channel) - channel) * (\<bar>multiplier\<bar> / Fin 255)
      else Math_round (channel * (multiplier / Fin 255)))"

text \<open>
  A buffer of w by h pixels that all have the same colour; \<open>colour k\<close> is the byte of the
  channel of index k.
\<close>

definition constantBuffer :: "nat \<Rightarrow> nat \<Rightarrow> (nat \<Rightarrow> byte) \<Rightarrow> Context2D" where
  "constantBuffer w h colour =
     \<lparr>width = w, height = h, data = map (\<lambda>k. colour (k mod 4)) [0..<4 * w * h]\<rparr>"

subsection \<open>Notions used in the proofs\<close>

text \<open>
  \<open>isDouble x\<close>: the real number x is a finite double. \<open>canonical X\<close>: the number X, when
  finite, is a double (every result of an operation is). \<open>inrange lo hi X\<close>: the number X is
  finite and lies between lo and hi.
\<close>

definition isDouble :: "real \<Rightarrow> bool" where
  "isDouble x = (nearest x = x \<and> \<bar>x\<bar> < 2 ^ 1024)"

definition canonical :: "number \<Rightarrow> bool" where
  "canonical X = (case X of Fin v \<Rightarrow> isDouble v | _ \<Rightarrow> True)"

definition inrange :: "real \<Rightarrow> real \<Rightarrow> number \<Rightarrow> bool" where
  "inrange lo hi X = (case X of Fin v \<Rightarrow> lo \<le> v \<and> v \<le> hi | _ \<Rightarrow> False)"

section \<open>Properties\<close>

text \<open>The loops are unfolded one step at a time, by hand.\<close>

declare swizzleFrom.simps [simp del]
declare maskLoop.simps [simp del]
declare unpackLoop.simps [simp del]
declare packPrepare.simps [simp del]
declare packLoop.simps [simp del]

subsection \<open>Rounding to the nearest double\<close>

lemma roundHalfEven_int [simp]: "roundHalfEven (of_int n) = n"
  by (simp add: roundHalfEven_def)

lemma roundHalfEven_bounds: "\<lfloor>t\<rfloor> \<le> roundHalfEven t" "roundHalfEven t \<le> \<lfloor>t\<rfloor> + 1"
  by (simp_all add: roundHalfEven_def Let_def)

lemma roundHalfEven_mono: "t \<le> s \<Longrightarrow> roundHalfEven t \<le> roundHalfEven s"
proof -
  assume ts: "t \<le> s"
  then have fl: "\<lfloor>t\<rfloor> \<le> \<lfloor>s\<rfloor>" by (rule floor_mono)
  show ?thesis
  proof (cases "\<lfloor>t\<rfloor> = \<lfloor>s\<rfloor>")
    case True
    then show ?thesis using ts by (auto simp: roundHalfEven_def Let_def)
  next
    case False
    with fl have "\<lfloor>t\<rfloor> + 1 \<le> \<lfloor>s\<rfloor>" by simp
    with roundHalfEven_bounds(2) [of t] roundHalfEven_bounds(1) [of s] show ?thesis by linarith
  qed
qed

lemma roundHalfEven_le: "t \<le> of_int N \<Longrightarrow> roundHalfEven t \<le> N"
  using roundHalfEven_mono [of t "of_int N"] by simp

lemma roundHalfEven_ge: "of_int N \<le> t \<Longrightarrow> N \<le> roundHalfEven t"
  using roundHalfEven_mono [of "of_int N" t] by simp

lemma roundHalfEven_neg: "roundHalfEven (- t) = - roundHalfEven t"
proof (cases "of_int \<lfloor>t\<rfloor> = t")
  case True
  then obtain n where "t = of_int n" by metis
  then show ?thesis by (simp del: of_int_minus add: of_int_minus [symmetric])
next
  case False
  then have lt: "of_int \<lfloor>t\<rfloor> < t" by (simp add: less_le)
  have fl: "\<lfloor>- t\<rfloor> = - \<lfloor>t\<rfloor> - 1"
    using False by (simp add: floor_minus ceiling_altdef)
  show ?thesis
    unfolding roundHalfEven_def Let_def fl using lt by (auto simp: algebra_simps)
qed



lemma pow2_powr: "pow2 e = 2 powr of_int e"
proof (cases "0 \<le> e")
  case True
  then have "(2::real) powr of_int e = 2 powr real (nat e)" by simp
  also have "\<dots> = 2 ^ nat e" by (simp only: powr_realpow zero_less_numeral)
  finally show ?thesis using True by (simp add: pow2_def)
next
  case False
  then have "(2::real) powr of_int e = 2 powr (- real (nat (- e)))" by simp
  also have "\<dots> = inverse (2 powr real (nat (- e)))" by (simp only: powr_minus)
  also have "\<dots> = inverse (2 ^ nat (- e))" by (simp only: powr_realpow zero_less_numeral)
  finally show ?thesis using False by (simp add: pow2_def divide_inverse)
qed

lemma pow2_pos [simp]: "0 < pow2 e"
  by (simp add: pow2_powr)

lemma pow2_nonneg [simp]: "0 \<le> pow2 e"
  by (simp add: pow2_powr)

lemma pow2_add: "pow2 (a + b) = pow2 a * pow2 b"
  by (simp add: pow2_powr powr_add)

lemma pow2_le [simp]: "pow2 a \<le> pow2 b \<longleftrightarrow> a \<le> b"
  by (simp add: pow2_powr)

lemma pow2_less [simp]: "pow2 a < pow2 b \<longleftrightarrow> a < b"
  by (simp add: pow2_powr)

lemma pow2_nat: "0 \<le> e \<Longrightarrow> pow2 e = of_int (2 ^ nat e)"
  by (simp add: pow2_def)

lemma pow2_numeral [simp]:
  "pow2 0 = 1" "pow2 1 = 2" "pow2 (- 1) = 1 / 2"
  "pow2 (numeral n) = 2 ^ numeral n" "pow2 (- numeral n) = 1 / 2 ^ numeral n"
  by (simp_all add: pow2_def)

lemma binade_ge: "- 1022 \<le> binade k a"
  by (induction k) simp_all

lemma binade_le: "binade k a \<le> int k - 1022"
  by (induction k) auto

lemma binade_above: "- 1022 < binade k a \<Longrightarrow> pow2 (binade k a) \<le> a"
  by (induction k) (auto split: if_splits)

lemma binade_below: "a < pow2 (int k - 1021) \<Longrightarrow> a < pow2 (binade k a + 1)"
proof (induction k)
  case 0
  then show ?case by simp
next
  case (Suc k)
  show ?case
  proof (cases "pow2 (int k - 1021) \<le> a")
    case True
    with Suc.prems show ?thesis by (simp add: algebra_simps)
  next
    case False
    then have "a < pow2 (int k - 1021)" by simp
    from Suc.IH [OF this] False show ?thesis by simp
  qed
qed

lemma binade_top: "pow2 (int k - 1022) \<le> a \<Longrightarrow> 0 < k \<Longrightarrow> binade k a = int k - 1022"
  by (cases k) simp_all

lemma binade_mono: "a \<le> b \<Longrightarrow> binade k a \<le> binade k b"
proof (induction k)
  case 0
  then show ?case by simp
next
  case (Suc k)
  then show ?case using binade_le [of k a] by auto
qed

lemma exponent_minus [simp]: "exponent (- x) = exponent x"
  by (simp add: exponent_def)

lemma exponent_abs [simp]: "exponent \<bar>x\<bar> = exponent x"
  by (simp add: exponent_def)

lemma exponent_ge: "- 1022 \<le> exponent x"
  by (simp add: exponent_def binade_ge)

lemma exponent_le: "exponent x \<le> 1023"
  using binade_le [of 2045 "\<bar>x\<bar>"] by (simp add: exponent_def)

lemma exponent_mono: "\<bar>x\<bar> \<le> \<bar>y\<bar> \<Longrightarrow> exponent x \<le> exponent y"
  by (simp add: exponent_def binade_mono)

lemma above_power: "- 1022 < exponent x \<Longrightarrow> pow2 (exponent x) \<le> \<bar>x\<bar>"
  unfolding exponent_def by (rule binade_above)

lemma below_next_power:
  assumes "\<bar>x\<bar> < 2 ^ 1024"
  shows "\<bar>x\<bar> < pow2 (exponent x + 1)"
proof -
  have "\<bar>x\<bar> < pow2 (int 2045 - 1021)" using assms by simp
  then show ?thesis unfolding exponent_def by (rule binade_below)
qed

lemma exponent_top: "2 ^ 1023 \<le> \<bar>x\<bar> \<Longrightarrow> exponent x = 1023"
  using binade_top [of 2045 "\<bar>x\<bar>"] by (simp add: exponent_def)

lemma below_next_power':
  assumes "exponent x < 1023"
  shows "\<bar>x\<bar> < pow2 (exponent x + 1)"
proof -
  have "\<bar>x\<bar> < 2 ^ 1023" using exponent_top [of x] assms by (cases "2 ^ 1023 \<le> \<bar>x\<bar>") simp_all
  then have "\<bar>x\<bar> < 2 ^ 1024" by simp
  then show ?thesis by (rule below_next_power)
qed

lemma ulp_pos [simp]: "0 < ulp x"
  by (simp add: ulp_def)

lemma ulp_nonneg [simp]: "0 \<le> ulp x"
  by (simp add: ulp_def)

lemma ulp_minus [simp]: "ulp (- x) = ulp x"
  by (simp add: ulp_def)

lemma ulp_abs [simp]: "ulp \<bar>x\<bar> = ulp x"
  by (simp add: ulp_def)

lemma ulp_neq0 [simp]: "ulp x \<noteq> 0"
  using ulp_pos [of x] by linarith

lemma nearest_minus: "nearest (- x) = - nearest x"
  by (simp add: nearest_def roundHalfEven_neg)

lemma nearest_0 [simp]: "nearest 0 = 0"
  using roundHalfEven_int [of 0] by (simp add: nearest_def)

lemma ulp_scale: "pow2 (exponent x + 1) = 2 ^ 53 * ulp x" "pow2 (exponent x) = 2 ^ 52 * ulp x"
proof -
  have "exponent x + 1 = 53 + (exponent x - 52)" by simp
  then have "pow2 (exponent x + 1) = pow2 (53 + (exponent x - 52))" by (rule arg_cong)
  also have "\<dots> = pow2 53 * ulp x" unfolding ulp_def by (rule pow2_add)
  finally show "pow2 (exponent x + 1) = 2 ^ 53 * ulp x" by simp
  have "exponent x = 52 + (exponent x - 52)" by simp
  then have "pow2 (exponent x) = pow2 (52 + (exponent x - 52))" by (rule arg_cong)
  also have "\<dots> = pow2 52 * ulp x" unfolding ulp_def by (rule pow2_add)
  finally show "pow2 (exponent x) = 2 ^ 52 * ulp x" by simp
qed

lemma of_int_le_power: "n \<le> 2 ^ k \<Longrightarrow> (of_int n :: real) \<le> 2 ^ k"
  by (metis of_int_le_iff of_int_numeral of_int_power)

lemma of_int_ge_power: "2 ^ k \<le> n \<Longrightarrow> (2 ^ k :: real) \<le> of_int n"
  by (metis of_int_le_iff of_int_numeral of_int_power)

lemma scaled_below:
  assumes "0 \<le> x" and "x < pow2 (exponent x + 1)"
  shows "x / ulp x \<le> 2 ^ 53"
  using assms by (simp add: ulp_scale pos_divide_le_eq)

lemma nearest_below:
  assumes "0 \<le> x" and "x < pow2 (exponent x + 1)"
  shows "nearest x \<le> pow2 (exponent x + 1)"
proof -
  have "roundHalfEven (x / ulp x) \<le> 2 ^ 53"
    using scaled_below [OF assms] by (intro roundHalfEven_le) simp
  then have "of_int (roundHalfEven (x / ulp x)) \<le> (2 ^ 53 :: real)"
    by (rule of_int_le_power)
  then show ?thesis
    by (simp add: nearest_def ulp_scale)
qed

lemma nearest_above:
  assumes "- 1022 < exponent x" and "0 < x"
  shows "pow2 (exponent x) \<le> nearest x"
proof -
  from above_power [OF assms(1)] assms(2) have "pow2 (exponent x) \<le> x" by simp
  then have "of_int (2 ^ 52) \<le> x / ulp x" by (simp add: ulp_scale pos_le_divide_eq)
  then have "2 ^ 52 \<le> roundHalfEven (x / ulp x)" by (rule roundHalfEven_ge)
  then have "(2 ^ 52 :: real) \<le> of_int (roundHalfEven (x / ulp x))"
    by (rule of_int_ge_power)
  then show ?thesis by (simp add: nearest_def ulp_scale)
qed

lemma nearest_nonneg: "0 \<le> x \<Longrightarrow> 0 \<le> nearest x"
proof -
  assume "0 \<le> x"
  then have "of_int 0 \<le> x / ulp x" by (simp add: divide_nonneg_pos)
  then have "0 \<le> roundHalfEven (x / ulp x)" by (rule roundHalfEven_ge)
  then show ?thesis by (simp add: nearest_def)
qed

lemma nearest_mono_pos:
  assumes "0 \<le> x" and "x \<le> y"
  shows "nearest x \<le> nearest y"
proof -
  from assms have le: "exponent x \<le> exponent y" by (intro exponent_mono) simp
  show ?thesis
  proof (cases "exponent x = exponent y")
    case True
    then have u: "ulp x = ulp y" by (simp add: ulp_def)
    have "x / ulp y \<le> y / ulp y" using assms(2) by (intro divide_right_mono) simp_all
    then have "roundHalfEven (x / ulp y) \<le> roundHalfEven (y / ulp y)" by (rule roundHalfEven_mono)
    then show ?thesis by (simp add: nearest_def u)
  next
    case False
    with le have lt: "exponent x + 1 \<le> exponent y" by simp
    with exponent_ge [of x] have "- 1022 < exponent y" by linarith
    moreover have y: "0 < y"
    proof (rule ccontr)
      assume "\<not> 0 < y"
      with assms have "x = y" by simp
      with False show False by simp
    qed
    ultimately have "pow2 (exponent y) \<le> nearest y" by (rule nearest_above)
    moreover have "pow2 (exponent x + 1) \<le> pow2 (exponent y)"
      using lt by simp
    moreover have "nearest x \<le> pow2 (exponent x + 1)"
    proof (rule nearest_below [OF assms(1)])
      from lt exponent_le [of y] have "exponent x < 1023" by linarith
      from below_next_power' [OF this] assms(1) show "x < pow2 (exponent x + 1)" by simp
    qed
    ultimately show ?thesis by linarith
  qed
qed

lemma nearest_mono: "x \<le> y \<Longrightarrow> nearest x \<le> nearest y"
proof -
  assume xy: "x \<le> y"
  consider "0 \<le> x" | "x < 0" "0 \<le> y" | "y < 0" by linarith
  then show ?thesis
  proof cases
    case 1
    then show ?thesis using xy by (rule nearest_mono_pos)
  next
    case 2
    have "0 \<le> nearest (- x)" using 2 by (intro nearest_nonneg) simp
    then have "nearest x \<le> 0" by (simp add: nearest_minus)
    with nearest_nonneg [OF 2(2)] show ?thesis by linarith
  next
    case 3
    have "nearest (- y) \<le> nearest (- x)" using 3 xy by (intro nearest_mono_pos) simp_all
    then show ?thesis by (simp add: nearest_minus)
  qed
qed

text \<open>Representable values.\<close>

lemma nearest_dyadic_strict:
  assumes m: "\<bar>m\<bar> < 2 ^ 53" and e: "- 1074 \<le> e"
  shows "nearest (of_int m * pow2 e) = of_int m * pow2 e"
proof -
  let ?x = "of_int m * pow2 e"
  have le: "exponent ?x \<le> e + 52"
  proof (cases "- 1022 < exponent ?x")
    case False
    with e show ?thesis by linarith
  next
    case True
    from above_power [OF this] have "pow2 (exponent ?x) \<le> \<bar>?x\<bar>" .
    also have "\<bar>?x\<bar> = \<bar>of_int m\<bar> * pow2 e" by (simp add: abs_mult)
    also have "\<dots> < 2 ^ 53 * pow2 e"
    proof -
      have "\<bar>of_int m :: real\<bar> < 2 ^ 53" using m
        by (metis of_int_abs of_int_less_iff of_int_numeral of_int_power)
      then show ?thesis by simp
    qed
    also have "\<dots> = pow2 (53 + e)" by (simp add: pow2_add)
    finally show ?thesis by simp
  qed
  define k where "k = e + 52 - exponent ?x"
  have k: "0 \<le> k" using le by (simp add: k_def)
  have "pow2 e = pow2 (k + (exponent ?x - 52))" by (simp add: k_def)
  also have "\<dots> = pow2 k * ulp ?x" unfolding ulp_def by (rule pow2_add)
  finally have pe: "pow2 e = of_int (2 ^ nat k) * ulp ?x" by (simp add: pow2_nat [OF k])
  have "?x / ulp ?x = of_int (m * 2 ^ nat k)"
    by (subst pe) simp
  then have "roundHalfEven (?x / ulp ?x) = m * 2 ^ nat k" by (simp only: roundHalfEven_int)
  then have "nearest ?x = of_int (m * 2 ^ nat k) * ulp ?x" by (simp only: nearest_def)
  also have "\<dots> = of_int m * (of_int (2 ^ nat k) * ulp ?x)" by simp
  also have "\<dots> = ?x" by (simp only: pe [symmetric])
  finally show ?thesis .
qed

lemma nearest_dyadic:
  assumes m: "\<bar>m\<bar> \<le> 2 ^ 53" and e: "- 1074 \<le> e"
  shows "nearest (of_int m * pow2 e) = of_int m * pow2 e"
proof (cases "\<bar>m\<bar> < 2 ^ 53")
  case True
  then show ?thesis using e by (rule nearest_dyadic_strict)
next
  case False
  with m have "\<bar>m\<bar> = 2 ^ 53" by simp
  then consider "m = 2 ^ 53" | "m = - (2 ^ 53)" by linarith
  then show ?thesis
  proof cases
    case 1
    have "of_int m * pow2 e = of_int (2 ^ 52) * pow2 (e + 1)"
      by (simp add: 1 pow2_add)
    moreover have "nearest (of_int (2 ^ 52) * pow2 (e + 1)) = of_int (2 ^ 52) * pow2 (e + 1)"
      using e by (intro nearest_dyadic_strict) simp_all
    ultimately show ?thesis by simp
  next
    case 2
    have "of_int m * pow2 e = of_int (- (2 ^ 52)) * pow2 (e + 1)"
      by (simp add: 2 pow2_add)
    moreover have "nearest (of_int (- (2 ^ 52)) * pow2 (e + 1)) = of_int (- (2 ^ 52)) * pow2 (e + 1)"
      using e by (intro nearest_dyadic_strict) simp_all
    ultimately show ?thesis by simp
  qed
qed

lemma nearest_idem: "nearest (nearest x) = nearest x"
proof (cases "\<bar>x\<bar> < 2 ^ 1024")
  case True
  define n where "n = roundHalfEven (\<bar>x\<bar> / ulp x)"
  have b: "\<bar>x\<bar> < pow2 (exponent \<bar>x\<bar> + 1)"
    using below_next_power [of "\<bar>x\<bar>"] True by simp
  have "n \<le> 2 ^ 53"
    unfolding n_def using scaled_below [of "\<bar>x\<bar>"] b by (intro roundHalfEven_le) simp
  moreover have "0 \<le> n"
    unfolding n_def by (intro roundHalfEven_ge) (simp add: divide_nonneg_pos)
  ultimately have n: "\<bar>n\<bar> \<le> 2 ^ 53" by simp
  have a: "nearest \<bar>x\<bar> = of_int n * pow2 (exponent x - 52)"
    by (simp add: nearest_def n_def ulp_def exponent_def)
  have "nearest (nearest \<bar>x\<bar>) = nearest \<bar>x\<bar>"
    unfolding a using n exponent_ge [of x] by (intro nearest_dyadic) simp_all
  then show ?thesis
    by (cases "0 \<le> x") (simp_all add: abs_if nearest_minus)
next
  case False
  then have big: "2 ^ 1024 \<le> \<bar>x\<bar>" by simp
  then have ex: "exponent x = 1023" by (intro exponent_top) simp
  have "2 ^ 1024 \<le> \<bar>nearest x\<bar>"
  proof -
    have "nearest (2 ^ 1024) \<le> nearest \<bar>x\<bar>" using big by (rule nearest_mono)
    moreover have "nearest (2 ^ 1024) = 2 ^ 1024"
      using nearest_dyadic [of 1 1024] by simp
    moreover have "nearest \<bar>x\<bar> = \<bar>nearest x\<bar>"
      using nearest_nonneg [of "\<bar>x\<bar>"] nearest_nonneg [of x] nearest_nonneg [of "- x"]
      by (cases "0 \<le> x") (simp_all add: abs_if nearest_minus)
    ultimately show ?thesis by simp
  qed
  then have ey: "exponent (nearest x) = 1023" by (intro exponent_top) simp
  have u: "ulp (nearest x) = ulp x" by (simp add: ulp_def ex ey)
  have "nearest x / ulp x = of_int (roundHalfEven (x / ulp x))"
    by (simp add: nearest_def)
  then show ?thesis
    unfolding nearest_def [of "nearest x"] u by (simp only: roundHalfEven_int) (simp add: nearest_def)
qed

lemma nearest_between:
  assumes "a \<le> x" and "x \<le> b" and "nearest a = a" and "nearest b = b"
  shows "a \<le> nearest x \<and> nearest x \<le> b"
  using nearest_mono [OF assms(1)] nearest_mono [OF assms(2)] assms(3,4) by simp

lemma nearest_frac:
  assumes "\<bar>m\<bar> \<le> 2 ^ 53" and "n \<le> 1074"
  shows "nearest (of_int m / 2 ^ n) = of_int m / 2 ^ n"
proof -
  have "pow2 (- int n) = 1 / 2 ^ n" by (cases "n = 0") (simp_all add: pow2_def)
  then have "of_int m / 2 ^ n = of_int m * pow2 (- int n)" by simp
  moreover have "nearest (of_int m * pow2 (- int n)) = of_int m * pow2 (- int n)"
    using assms by (intro nearest_dyadic) simp_all
  ultimately show ?thesis by simp
qed

lemma nearest_int: "\<bar>m\<bar> \<le> 2 ^ 53 \<Longrightarrow> nearest (of_int m) = of_int m"
  using nearest_frac [of m 0] by simp

lemma exponent_eq:
  assumes "pow2 E \<le> \<bar>x\<bar>" and "\<bar>x\<bar> < pow2 (E + 1)" and "- 1022 \<le> E" and "E \<le> 1023"
  shows "exponent x = E"
proof -
  have "exponent x \<le> E"
  proof (cases "- 1022 < exponent x")
    case True
    from above_power [OF this] assms(2) have "pow2 (exponent x) < pow2 (E + 1)" by linarith
    then show ?thesis by simp
  next
    case False
    with assms(3) show ?thesis by linarith
  qed
  moreover have "E \<le> exponent x"
  proof -
    have "pow2 (E + 1) \<le> pow2 1024" using assms(4) by (simp only: pow2_le)
    with assms(2) have "\<bar>x\<bar> < 2 ^ 1024" by simp
    from below_next_power [OF this] assms(1) have "pow2 E < pow2 (exponent x + 1)" by linarith
    then show ?thesis by simp
  qed
  ultimately show ?thesis by simp
qed

subsection \<open>Doubles, and numbers between bounds\<close>

lemma isDouble_frac:
  assumes "\<bar>m\<bar> \<le> 2 ^ 53" and "n \<le> 1074"
  shows "isDouble (of_int m / 2 ^ n)"
proof -
  have "\<bar>of_int m :: real\<bar> \<le> 2 ^ 53"
    using assms(1) by (metis of_int_abs of_int_le_iff of_int_numeral of_int_power)
  moreover have "\<bar>of_int m / 2 ^ n :: real\<bar> \<le> \<bar>of_int m\<bar>"
    by (simp add: divide_le_eq mult_le_cancel_left1 del: of_int_abs)
  moreover have "(2 ^ 53 :: real) < 2 ^ 1024" by simp
  ultimately have "\<bar>of_int m / 2 ^ n :: real\<bar> < 2 ^ 1024" by linarith
  with nearest_frac [OF assms] show ?thesis by (simp only: isDouble_def simp_thms)
qed

lemma isDouble_int: "\<bar>m\<bar> \<le> 2 ^ 53 \<Longrightarrow> isDouble (of_int m)"
  using isDouble_frac [of m 0] by simp

lemma isDouble_0 [simp]: "isDouble 0"
  using isDouble_int [of 0] by simp

lemma isDouble_1 [simp]: "isDouble 1"
  using isDouble_int [of 1] by simp

lemma isDouble_minus [simp]: "isDouble (- x) = isDouble x"
  by (simp add: isDouble_def nearest_minus)

lemma rnd_exact: "isDouble x \<Longrightarrow> rnd x = Fin x"
  by (simp add: rnd_def isDouble_def)

lemma rnd_0 [simp]: "rnd 0 = Fin 0"
  by (simp add: rnd_exact)

lemma rnd_1 [simp]: "rnd 1 = Fin 1"
  by (simp add: rnd_exact)

lemma rnd_not_NaN [simp]: "rnd x \<noteq> NaN"
  by (simp add: rnd_def Let_def)

lemma rnd_in:
  assumes "lo \<le> x" and "x \<le> hi" and "isDouble lo" and "isDouble hi"
  shows "inrange lo hi (rnd x)"
proof -
  from assms have b: "lo \<le> nearest x \<and> nearest x \<le> hi"
    by (intro nearest_between) (simp_all add: isDouble_def)
  moreover from assms have "\<bar>lo\<bar> < 2 ^ 1024" "\<bar>hi\<bar> < 2 ^ 1024" by (simp_all add: isDouble_def)
  ultimately have "\<bar>nearest x\<bar> < 2 ^ 1024" by linarith
  with b show ?thesis by (simp add: rnd_def inrange_def)
qed

lemma canonical_simps [simp]:
  "canonical NaN" "canonical PInf" "canonical NInf" "canonical (Fin v) = isDouble v"
  by (simp_all add: canonical_def)

lemma rnd_canonical [simp]: "canonical (rnd x)"
  by (simp add: rnd_def Let_def isDouble_def nearest_idem)

lemma rnd_overflow:
  assumes "2 ^ 1024 \<le> x"
  shows "rnd x = PInf"
proof -
  have "nearest (2 ^ 1024) \<le> nearest x" using assms by (rule nearest_mono)
  moreover have "nearest (2 ^ 1024) = 2 ^ 1024"
    using nearest_dyadic [of 1 1024] by simp
  moreover have "(0::real) < 2 ^ 1024" by simp
  ultimately have "2 ^ 1024 \<le> \<bar>nearest x\<bar>" by linarith
  moreover from assms \<open>(0::real) < 2 ^ 1024\<close> have "0 < x" by linarith
  ultimately show ?thesis by (simp add: rnd_def)
qed

lemma inrange_Fin [simp]: "inrange lo hi (Fin v) \<longleftrightarrow> lo \<le> v \<and> v \<le> hi"
  by (simp add: inrange_def)

lemma inrangeE: "inrange lo hi X \<Longrightarrow> \<exists>v. X = Fin v \<and> lo \<le> v \<and> v \<le> hi"
  by (cases X) (simp_all add: inrange_def)

lemma inrange_widen: "inrange a b X \<Longrightarrow> lo \<le> a \<Longrightarrow> b \<le> hi \<Longrightarrow> inrange lo hi X"
  by (cases X) (simp_all add: inrange_def)

lemma plus_in:
  assumes "inrange a b X" and "inrange c d Y" and "lo \<le> a + c" and "b + d \<le> hi"
    and "isDouble lo" and "isDouble hi"
  shows "inrange lo hi (X + Y)"
proof -
  from inrangeE [OF assms(1)] obtain x where x: "X = Fin x" "a \<le> x" "x \<le> b" by blast
  from inrangeE [OF assms(2)] obtain y where y: "Y = Fin y" "c \<le> y" "y \<le> d" by blast
  show ?thesis unfolding x(1) y(1) plus_number.simps
    using x y assms by (intro rnd_in) simp_all
qed

lemma uminus_in: "inrange a b X \<Longrightarrow> inrange (- b) (- a) (- X)"
  by (cases X) (simp_all add: inrange_def)

lemma minus_in:
  assumes "inrange a b X" and "inrange c d Y" and "lo \<le> a - d" and "b - c \<le> hi"
    and "isDouble lo" and "isDouble hi"
  shows "inrange lo hi (X - Y)"
  unfolding minus_number_def
  using plus_in [OF assms(1) uminus_in [OF assms(2)], of lo hi] assms(3-) by simp

lemma times_in:
  assumes "inrange a b X" and "inrange c d Y" and "0 \<le> a" and "0 \<le> c"
    and "lo \<le> a * c" and "b * d \<le> hi" and "isDouble lo" and "isDouble hi"
  shows "inrange lo hi (X * Y)"
proof -
  from inrangeE [OF assms(1)] obtain x where x: "X = Fin x" "a \<le> x" "x \<le> b" by blast
  from inrangeE [OF assms(2)] obtain y where y: "Y = Fin y" "c \<le> y" "y \<le> d" by blast
  have "a * c \<le> x * y" using x y assms(3,4) by (intro mult_mono) simp_all
  moreover have "x * y \<le> b * d" using x y assms(3,4) by (intro mult_mono) simp_all
  ultimately show ?thesis unfolding x(1) y(1) times_number.simps
    using assms by (intro rnd_in) simp_all
qed

lemma divide_in:
  assumes "inrange a b X" and "inrange c d Y" and "0 \<le> a" and "0 < c"
    and "lo \<le> a / d" and "b / c \<le> hi" and "isDouble lo" and "isDouble hi"
  shows "inrange lo hi (X / Y)"
proof -
  from inrangeE [OF assms(1)] obtain x where x: "X = Fin x" "a \<le> x" "x \<le> b" by blast
  from inrangeE [OF assms(2)] obtain y where y: "Y = Fin y" "c \<le> y" "y \<le> d" by blast
  have y0: "0 < y" "y \<noteq> 0" using y assms(4) by simp_all
  have "a / d \<le> x / y" using x y assms(3,4) by (intro frac_le) simp_all
  moreover have "x / y \<le> b / c" using x y assms(3,4) by (intro frac_le) simp_all
  ultimately show ?thesis unfolding x(1) y(1)
    using assms y0 by (simp only: divide_number.simps if_False) (intro rnd_in, simp_all)
qed

lemma less_in: "inrange a b X \<Longrightarrow> inrange c d Y \<Longrightarrow> b < c \<Longrightarrow> X < Y"
  by (cases X; cases Y) (simp_all add: inrange_def)

lemma le_in: "inrange a b X \<Longrightarrow> inrange c d Y \<Longrightarrow> b \<le> c \<Longrightarrow> X \<le> Y"
  by (cases X; cases Y) (simp_all add: inrange_def)

lemma not_le_in: "inrange a b X \<Longrightarrow> inrange c d Y \<Longrightarrow> d < a \<Longrightarrow> \<not> X \<le> Y"
  by (cases X; cases Y) (simp_all add: inrange_def)

lemma not_less_in: "inrange a b X \<Longrightarrow> inrange c d Y \<Longrightarrow> d \<le> a \<Longrightarrow> \<not> X < Y"
  by (cases X; cases Y) (simp_all add: inrange_def)

lemma round_in:
  assumes "inrange lo hi X" and "of_int n - 1 / 2 \<le> lo" and "hi < of_int n + 1 / 2"
  shows "Math_round X = Fin (of_int n)"
proof -
  from inrangeE [OF assms(1)] obtain x where x: "X = Fin x" "lo \<le> x" "x \<le> hi" by blast
  have "\<lfloor>x + 1 / 2\<rfloor> = n" using x assms(2,3) by (intro floor_unique) simp_all
  then show ?thesis by (simp add: x(1))
qed

lemma Math_pow_one: "Math_pow (Fin v) (Fin 1) = rnd v"
  by (simp add: isInteger_def)




lemma canonical_plus [simp]: "canonical (X + Y)"
  by (cases X; cases Y) simp_all

lemma canonical_times [simp]: "canonical (X * Y)"
  by (cases X; cases Y) simp_all

lemma canonical_divide [simp]: "canonical (X / Y)"
  by (cases X; cases Y) simp_all

lemma canonical_pow [simp]: "canonical (Math_pow X Y)"
  by (cases X; cases Y) (simp_all split: number.split)

lemma rnd_eval:
  assumes "pow2 E \<le> \<bar>x\<bar>" and "\<bar>x\<bar> < pow2 (E + 1)" and "- 1022 \<le> E" and "E \<le> 1022"
    and "roundHalfEven (x / pow2 (E - 52)) = n"
  shows "rnd x = Fin (of_int n * pow2 (E - 52))"
proof -
  have e: "exponent x = E" using assms(1-4) by (intro exponent_eq) simp_all
  then have n: "nearest x = of_int n * pow2 (E - 52)"
    using assms(5) by (simp add: nearest_def ulp_def)
  have "\<bar>nearest x\<bar> \<le> pow2 (E + 1)"
  proof (cases "0 \<le> x")
    case True
    then have "nearest x \<le> pow2 (exponent x + 1)" using assms(2) e by (intro nearest_below) simp_all
    with nearest_nonneg [OF True] e show ?thesis by simp
  next
    case False
    then have "nearest (- x) \<le> pow2 (exponent (- x) + 1)" using assms(2) e by (intro nearest_below) simp_all
    moreover have "0 \<le> nearest (- x)" using False by (intro nearest_nonneg) simp
    ultimately show ?thesis using e by (simp add: nearest_minus)
  qed
  also have "\<dots> < pow2 1024" using assms(4) by (simp only: pow2_less)
  finally have "\<bar>nearest x\<bar> < 2 ^ 1024" by simp
  then show ?thesis by (simp add: rnd_def n)
qed

lemma isDouble_power2: "n \<le> 1023 \<Longrightarrow> isDouble (2 ^ n)"
proof -
  assume n: "n \<le> 1023"
  have "nearest (of_int 1 * pow2 (int n)) = of_int 1 * pow2 (int n)"
    by (rule nearest_dyadic) simp_all
  then have "nearest (2 ^ n) = 2 ^ n" by (simp add: pow2_def)
  moreover have "(2::real) ^ n < 2 ^ 1024" using n by (intro power_strict_increasing) simp_all
  moreover have "\<bar>(2::real) ^ n\<bar> = 2 ^ n" by simp
  ultimately show ?thesis by (simp only: isDouble_def simp_thms)
qed

lemma rnd_half: "rnd (1 / 2) = Fin (1 / 2)"
  using isDouble_frac [of 1 1] by (simp add: rnd_exact)

lemma Fin_minus [simp]: "Fin a - Fin b = rnd (a - b)"
  by (simp add: minus_number_def)

lemma NaN_minus [simp]: "NaN - x = NaN" "x - NaN = NaN"
  by (cases x; simp add: minus_number_def)+

lemma NaN_right [simp]: "x + NaN = NaN" "x * NaN = NaN" "x / NaN = NaN"
  by (cases x; simp)+

lemma NaN_less [simp]: "\<not> x < NaN" "\<not> x \<le> NaN"
  by (cases x; simp)+


lemma canonical_minus [simp]: "canonical (X - Y)"
  by (simp add: minus_number_def)

lemma times_overflow:
  assumes "inrange a b X" and "inrange c d Y" and "0 \<le> a" and "0 \<le> c" and "2 ^ 1024 \<le> a * c"
  shows "X * Y = PInf"
proof -
  from inrangeE [OF assms(1)] obtain x where x: "X = Fin x" "a \<le> x" by blast
  from inrangeE [OF assms(2)] obtain y where y: "Y = Fin y" "c \<le> y" by blast
  have "a * c \<le> x * y" using x y assms(3,4) by (intro mult_mono) simp_all
  with assms(5) have "2 ^ 1024 \<le> x * y" by linarith
  then show ?thesis unfolding x(1) y(1) times_number.simps by (rule rnd_overflow)
qed

lemma times_in_neg:
  assumes "inrange a b X" and "inrange c d Y" and "0 \<le> a" and "d \<le> 0"
    and "lo \<le> b * c" and "a * d \<le> hi" and "isDouble lo" and "isDouble hi"
  shows "inrange lo hi (X * Y)"
proof -
  from inrangeE [OF assms(1)] obtain x where x: "X = Fin x" "a \<le> x" "x \<le> b" by blast
  from inrangeE [OF assms(2)] obtain y where y: "Y = Fin y" "c \<le> y" "y \<le> d" by blast
  have "a * (- d) \<le> x * (- y)" using x y assms(3,4) by (intro mult_mono) simp_all
  moreover have "x * (- y) \<le> b * (- c)" using x y assms(3,4) by (intro mult_mono) simp_all
  ultimately show ?thesis unfolding x(1) y(1) times_number.simps
    using assms by (intro rnd_in) simp_all
qed

lemma one_times_in:
  "inrange a b X \<Longrightarrow> isDouble a \<Longrightarrow> isDouble b \<Longrightarrow> inrange a b (Fin 1 * X)"
  by (cases X) (simp_all add: inrange_def [of a b NaN] inrange_def [of a b PInf] inrange_def [of a b NInf] rnd_in)

lemma pow_one_in:
  "inrange a b X \<Longrightarrow> isDouble a \<Longrightarrow> isDouble b \<Longrightarrow> inrange a b (Math_pow X (Fin 1))"
  by (cases X) (simp_all only: Math_pow_one inrange_Fin rnd_in, simp_all add: inrange_def)

lemma clamp_in: "inrange a b X \<Longrightarrow> 0 \<le> a \<Longrightarrow> b \<le> 1 \<Longrightarrow> clamp (Fin 0) (Fin 1) X = X"
  by (cases X) (simp_all add: inrange_def clamp_def)

lemma store_round:
  assumes "inrange lo hi X" and "of_int n - 1 / 2 < lo" and "hi < of_int n + 1 / 2"
    and "0 < n" and "n < 255"
  shows "ToUint8Clamp X = word_of_int n"
proof -
  from inrangeE [OF assms(1)] obtain x where x: "X = Fin x" "lo \<le> x" "x \<le> hi" by blast
  have b: "of_int n - 1 / 2 < x" "x < of_int n + 1 / 2" using x assms(2,3) by simp_all
  have "roundHalfEven x = n"
  proof (cases "of_int n \<le> x")
    case True
    with b have "\<lfloor>x\<rfloor> = n" by (intro floor_unique) simp_all
    with b show ?thesis by (simp add: roundHalfEven_def)
  next
    case False
    with b have "\<lfloor>x\<rfloor> = n - 1" by (intro floor_unique) simp_all
    with b show ?thesis by (simp add: roundHalfEven_def)
  qed
  moreover have "0 < x" "x < 255"
  proof -
    have "(1::real) \<le> of_int n" using assms(4) by simp
    with b(1) show "0 < x" by simp
    have "of_int n \<le> (254::real)" using assms(5) by simp
    with b(2) show "x < 255" by simp
  qed
  ultimately show ?thesis by (simp add: x(1))
qed


subsection \<open>Typed arrays and channel names\<close>

lemma length_wr [simp]: "length (wr d k v) = length d"
  by (simp add: wr_def)

lemma nth_wr: "wr d k v ! j = (if j = k \<and> k < length d then undef0 v else d ! j)"
  by (cases "k < length d") (simp_all add: wr_def undef0_def list_update_beyond)

lemma channelIndexes_cases:
  "channelIndexes c = Some k \<Longrightarrow>
     (c = ''R'' \<and> k = 0) \<or> (c = ''G'' \<and> k = 1) \<or> (c = ''B'' \<and> k = 2) \<or> (c = ''A'' \<and> k = 3)"
  by (auto simp: channelIndexes_def split: if_splits)

lemma channelIndexes_None:
  "channelIndexes c = None \<longleftrightarrow> c \<noteq> ''R'' \<and> c \<noteq> ''G'' \<and> c \<noteq> ''B'' \<and> c \<noteq> ''A''"
  by (auto simp: channelIndexes_def)

subsection \<open>swizzleFrame\<close>

lemma swizzleEntries_valid:
  assumes "i + 3 < length d" and "\<forall>(s, t) \<in> set opts. channelIndexes t \<noteq> None"
  shows "\<exists>d'. swizzleEntries m i opts d = Inr d' \<and> length d' = length d \<and>
           (\<forall>j. j < i \<or> i + 3 < j \<longrightarrow> d' ! j = d ! j) \<and>
           (\<forall>t kt. channelIndexes t = Some kt \<longrightarrow>
              d' ! (i + kt) =
                (case lastSource opts t of None \<Rightarrow> d ! (i + kt) | Some s \<Rightarrow> undef0 (m s)))"
  using assms
proof (induction opts arbitrary: d)
  case Nil
  then show ?case by simp
next
  case (Cons e rest)
  obtain s t where e: "e = (s, t)" by (cases e)
  from Cons.prems e obtain k where k: "channelIndexes t = Some k" by auto
  let ?d1 = "wr d (i + k) (m s)"
  have step: "swizzleEntries m i (e # rest) d = swizzleEntries m i rest ?d1"
    using channelIndexes_cases [OF k] by (auto simp: e)
  have len: "i + 3 < length ?d1" using Cons.prems by simp
  have val: "\<forall>(s, t) \<in> set rest. channelIndexes t \<noteq> None" using Cons.prems by simp
  from Cons.IH [OF len val] obtain d' where
    r: "swizzleEntries m i rest ?d1 = Inr d'" and l: "length d' = length ?d1"
    and out: "\<forall>j. j < i \<or> i + 3 < j \<longrightarrow> d' ! j = ?d1 ! j"
    and inn: "\<forall>t kt. channelIndexes t = Some kt \<longrightarrow>
              d' ! (i + kt) =
                (case lastSource rest t of None \<Rightarrow> ?d1 ! (i + kt) | Some s \<Rightarrow> undef0 (m s))"
    by blast
  have k3: "k \<le> 3" using channelIndexes_cases [OF k] by auto
  have out': "\<forall>j. j < i \<or> i + 3 < j \<longrightarrow> d' ! j = d ! j"
    using out k3 by (auto simp: nth_wr)
  have inn': "d' ! (i + kt) =
      (case lastSource (e # rest) c of None \<Rightarrow> d ! (i + kt) | Some s \<Rightarrow> undef0 (m s))"
    if c: "channelIndexes c = Some kt" for c kt
  proof -
    have eq: "t = c \<longleftrightarrow> k = kt"
      using channelIndexes_cases [OF k] channelIndexes_cases [OF c] by auto
    have "i + k < length d" using k3 Cons.prems by simp
    then show ?thesis
      using inn [rule_format, OF c] eq by (auto simp: e nth_wr split: option.splits)
  qed
  show ?case
    unfolding step using r l out' inn' by auto
qed

lemma swizzleMap_valid:
  "i + 3 < length d \<Longrightarrow> channelIndexes s \<noteq> None \<Longrightarrow> undef0 (swizzleMap d i s) = chanByte d i s"
  by (auto simp: swizzleMap_def channelIndexes_def chanByte_def rd_def undef0_def split: if_splits)

lemma lastSource_mem: "lastSource opts t = Some s \<Longrightarrow> (s, t) \<in> set opts"
  by (induction opts) (auto split: option.splits if_splits)

text \<open>
  C1, as the code has it. The claim reads each map key as the destination and each value
  as the source; the loop of \<^verbatim>\<open>swizzleFrame\<close> does the opposite (its comment:
  \<^verbatim>\<open>{G:R} means G -> R\<close>). The claim as written fails on the map \<^verbatim>\<open>{ R: "G" }\<close>: the
  frame (10, 20, 30, 40) does not get 20 in its R byte.
\<close>

theorem swizzleFrame_key_is_not_destination:
  "\<not> (\<exists>d'. swizzleFrame [10, 20, 30, 40] [(''R'', ''G'')] 0 = Inr d' \<and> d' ! 0 = 20)"
  by (simp add: swizzleFrame_def swizzleMap_def rd_def wr_def)

text \<open>
  C1, amended. For a frame inside the buffer and a map whose keys and values are all
  channels, \<^verbatim>\<open>swizzleFrame\<close> succeeds, leaves every byte outside the frame alone, and every
  channel of the frame that is the value of some entry receives the original byte of the
  channel named by the key of the last such entry; a channel that is no entry's value keeps
  its byte. All four bytes are those read before any write.
\<close>

theorem swizzleFrame_key_into_value:
  assumes "i + 3 < length d"
    and "\<forall>(s, t) \<in> set opts. channelIndexes s \<noteq> None \<and> channelIndexes t \<noteq> None"
  shows "\<exists>d'. swizzleFrame d opts i = Inr d' \<and> length d' = length d \<and>
           (\<forall>j. j < i \<or> i + 3 < j \<longrightarrow> d' ! j = d ! j) \<and>
           (\<forall>t. channelIndexes t \<noteq> None \<longrightarrow>
              chanByte d' i t =
                (case lastSource opts t of None \<Rightarrow> chanByte d i t | Some s \<Rightarrow> chanByte d i s))"
proof -
  have val: "\<forall>(s, t) \<in> set opts. channelIndexes t \<noteq> None" using assms(2) by auto
  from swizzleEntries_valid [OF assms(1) val, of "swizzleMap d i"] obtain d' where
    r: "swizzleFrame d opts i = Inr d'" and l: "length d' = length d"
    and out: "\<forall>j. j < i \<or> i + 3 < j \<longrightarrow> d' ! j = d ! j"
    and inn: "\<forall>t kt. channelIndexes t = Some kt \<longrightarrow>
              d' ! (i + kt) =
                (case lastSource opts t of None \<Rightarrow> d ! (i + kt)
                 | Some s \<Rightarrow> undef0 (swizzleMap d i s))"
    unfolding swizzleFrame_def by blast
  have "chanByte d' i t =
      (case lastSource opts t of None \<Rightarrow> chanByte d i t | Some s \<Rightarrow> chanByte d i s)"
    if "channelIndexes t \<noteq> None" for t
  proof -
    from that obtain kt where kt: "channelIndexes t = Some kt" by auto
    show ?thesis
    proof (cases "lastSource opts t")
      case None
      then show ?thesis using inn [rule_format, OF kt] kt by (simp add: chanByte_def)
    next
      case (Some s)
      then have "channelIndexes s \<noteq> None" using lastSource_mem assms(2) by fastforce
      then show ?thesis
        using inn [rule_format, OF kt] kt Some swizzleMap_valid [OF assms(1)]
        by (simp add: chanByte_def)
    qed
  qed
  then show ?thesis using r l out by blast
qed

theorem swizzleFrame_key_into_value_witness:
  "swizzleFrame [10, 20, 30, 40] [(''R'', ''B''), (''B'', ''R'')] 0 = Inr [30, 20, 10, 40] \<and>
   chanByte [30, 20, 10, 40] 0 ''R'' = chanByte [10, 20, 30, 40] 0 ''B'' \<and>
   chanByte [30, 20, 10, 40] 0 ''B'' = chanByte [10, 20, 30, 40] 0 ''R'' \<and>
   chanByte [30, 20, 10, 40] 0 ''G'' = chanByte [10, 20, 30, 40] 0 ''G''"
proof -
  have h1: "0 + 3 < length [10, 20, 30, 40 :: byte]" by simp
  have h2: "\<forall>(s, t) \<in> set [(''R'', ''B''), (''B'', ''R'')].
              channelIndexes s \<noteq> None \<and> channelIndexes t \<noteq> None"
    by (simp add: channelIndexes_def)
  have r: "swizzleFrame [10, 20, 30, 40] [(''R'', ''B''), (''B'', ''R'')] 0 = Inr [30, 20, 10, 40]"
    by (simp add: swizzleFrame_def swizzleMap_def rd_def wr_def)
  from swizzleFrame_key_into_value [OF h1 h2] r
  have "\<forall>t. channelIndexes t \<noteq> None \<longrightarrow>
          chanByte [30, 20, 10, 40] 0 t =
            (case lastSource [(''R'', ''B''), (''B'', ''R'')] t of
               None \<Rightarrow> chanByte [10, 20, 30, 40] 0 t
             | Some s \<Rightarrow> chanByte [10, 20, 30, 40] 0 s)"
    by simp
  from this [rule_format, of "''R''"] this [rule_format, of "''B''"] this [rule_format, of "''G''"] r
  show ?thesis by (simp add: channelIndexes_def)
qed

subsection \<open>The canvas: reading and writing the whole surface\<close>

lemma pixel_index: "4 * (k div 4 div w * w + k div 4 mod w) + k mod 4 = (k::nat)"
  by simp

lemma pixel_in_canvas:
  assumes "k < 4 * w * (h::nat)"
  shows "k div 4 mod w < w" and "k div 4 div w < h"
proof -
  from assms have w: "0 < w" by (cases w) auto
  then show "k div 4 mod w < w" by simp
  from assms have "k div 4 < h * w" by (simp add: mult.commute less_mult_imp_div_less)
  then show "k div 4 div w < h" by (rule less_mult_imp_div_less)
qed

lemma canvasByte_pixel:
  "k < 4 * width c * height c \<Longrightarrow>
   canvasByte c (int (k div 4 mod width c)) (int (k div 4 div width c)) (k mod 4) = byteAt (data c) k"
  by (simp add: canvasByte_def pixel_index pixel_in_canvas)

lemma getImageData_full:
  "getImageData c 0 0 (int (width c)) (int (height c)) =
     \<lparr>width = width c, height = height c, data = map (byteAt (data c)) [0..<4 * width c * height c]\<rparr>"
proof -
  have "map (\<lambda>k. canvasByte c (int (k div 4 mod width c)) (int (k div 4 div width c)) (k mod 4))
          [0..<4 * width c * height c] = map (byteAt (data c)) [0..<4 * width c * height c]"
    by (rule map_cong [OF refl]) (simp add: canvasByte_pixel)
  then show ?thesis by (simp add: getImageData_def)
qed

lemma map_byteAt: "length d = n \<Longrightarrow> map (byteAt d) [0..<n] = d"
  by (auto simp: byteAt_def intro: nth_equalityI)

lemma putImageData_whole:
  assumes "width img = width c" "height img = height c"
  shows "putImageData c img 0 0 = c\<lparr>data := map (byteAt (data img)) [0..<4 * width c * height c]\<rparr>"
  using assms by (simp add: putImageData_def pixel_in_canvas pixel_index)

lemma putImageData_full:
  assumes "width img = w" "height img = h"
  shows "putImageData (createCanvas w h) img 0 0 =
     \<lparr>width = w, height = h, data = map (byteAt (data img)) [0..<4 * w * h]\<rparr>"
  using assms by (simp add: putImageData_whole createCanvas_def)


subsection \<open>unpack\<close>

lemma unpackLoop_step:
  "i < n \<Longrightarrow>
   unpackLoop n i (r, g, b, a) =
     unpackLoop n (i + 4)
       (r[i + 1 := 0, i + 2 := 0, i + 3 := 255],
        g[i := 0, i + 2 := 0, i + 3 := 255],
        b[i := 0, i + 1 := 0, i + 3 := 255],
        (wr (wr (wr a i (rd a 3)) (i + 1) (rd (wr a i (rd a 3)) 3)) (i + 2)
            (rd (wr (wr a i (rd a 3)) (i + 1) (rd (wr a i (rd a 3)) 3)) 3))[i + 3 := 255])"
  by (subst unpackLoop.simps) (simp add: Let_def)

lemma unpackLoop_done: "\<not> i < n \<Longrightarrow> unpackLoop n i s = s"
  by (cases s) (simp add: unpackLoop.simps)

lemma unpackLoop_length:
  "unpackLoop n i (r, g, b, a) = (r', g', b', a') \<Longrightarrow>
   length r' = length r \<and> length g' = length g \<and> length b' = length b \<and> length a' = length a"
proof (induction "n - i" arbitrary: i r g b a rule: less_induct)
  case less
  show ?case
  proof (cases "i < n")
    case True
    have "n - (i + 4) < n - i" using True by simp
    from less.hyps [OF this] less.prems show ?thesis
      unfolding unpackLoop_step [OF True] by fastforce
  next
    case False
    with less.prems show ?thesis by (simp add: unpackLoop_done)
  qed
qed

lemma frame_mods:
  assumes "4 dvd (i::nat)"
  shows "i mod 4 = 0" "(i + 1) mod 4 = 1" "(i + 2) mod 4 = 2" "(i + 3) mod 4 = 3"
        "Suc i mod 4 = 1" "Suc (Suc i) mod 4 = 2" "Suc (Suc (Suc i)) mod 4 = 3"
  using assms by presburger+

lemma frame_cases:
  obtains "j < i" | "j = i" | "j = i + 1" | "j = i + 2" | "j = i + 3" | "i + 4 \<le> (j::nat)"
  by linarith

text \<open>The colour outputs: from frame i on, each frame keeps its own channel.\<close>

lemma unpackLoop_rgb:
  assumes "unpackLoop n i (r, g, b, a) = (r', g', b', a')"
    and "4 dvd i" and "4 dvd n" and "length r = n" and "length g = n" and "length b = n"
    and "j < n"
  shows "r' ! j = (if i \<le> j then (if j mod 4 = 0 then r ! j else if j mod 4 = 3 then 255 else 0) else r ! j) \<and>
         g' ! j = (if i \<le> j then (if j mod 4 = 1 then g ! j else if j mod 4 = 3 then 255 else 0) else g ! j) \<and>
         b' ! j = (if i \<le> j then (if j mod 4 = 2 then b ! j else if j mod 4 = 3 then 255 else 0) else b ! j)"
  using assms
proof (induction "n - i" arbitrary: i r g b a rule: less_induct)
  case less
  show ?case
  proof (cases "i < n")
    case True
    have m: "n - (i + 4) < n - i" using True by simp
    have d: "4 dvd i + 4" using less.prems(2) by simp
    from True less.prems(2,3) have i3: "i + 3 < n" by presburger
    note mods = frame_mods [OF less.prems(2)]
    have IH: "r' ! j = (if i + 4 \<le> j then (if j mod 4 = 0 then r[i + 1 := 0, i + 2 := 0, i + 3 := 255] ! j else if j mod 4 = 3 then 255 else 0) else r[i + 1 := 0, i + 2 := 0, i + 3 := 255] ! j) \<and>
         g' ! j = (if i + 4 \<le> j then (if j mod 4 = 1 then g[i := 0, i + 2 := 0, i + 3 := 255] ! j else if j mod 4 = 3 then 255 else 0) else g[i := 0, i + 2 := 0, i + 3 := 255] ! j) \<and>
         b' ! j = (if i + 4 \<le> j then (if j mod 4 = 2 then b[i := 0, i + 1 := 0, i + 3 := 255] ! j else if j mod 4 = 3 then 255 else 0) else b[i := 0, i + 1 := 0, i + 3 := 255] ! j)"
      by (rule less.hyps [OF m _ d less.prems(3) _ _ _ less.prems(7)])
         (use less.prems in \<open>simp_all add: unpackLoop_step [OF True]\<close>)
    show ?thesis
      by (rule frame_cases [of j i]) (use IH i3 mods less.prems(4-7) in \<open>simp_all\<close>)
  next
    case False
    with less.prems show ?thesis by (simp add: unpackLoop_done)
  qed
qed


lemma alpha_frame:
  assumes "4 dvd i" and "i + 3 < length a"
  shows "(wr (wr (wr a i (rd a 3)) (i + 1) (rd (wr a i (rd a 3)) 3)) (i + 2)
            (rd (wr (wr a i (rd a 3)) (i + 1) (rd (wr a i (rd a 3)) 3)) 3))[i + 3 := 255] =
         a[i := a ! 3, i + 1 := a ! 3, i + 2 := a ! 3, i + 3 := 255]"
proof -
  from assms(1) have "i \<noteq> 3" "i + 1 \<noteq> 3" "i + 2 \<noteq> 3" by presburger+
  with assms(2) show ?thesis by (simp add: wr_def rd_def)
qed

text \<open>The alpha output from a later frame on: byte 3 is no longer written.\<close>

lemma unpackLoop_alpha_later:
  assumes "unpackLoop n i (r, g, b, a) = (r', g', b', a')"
    and "4 dvd i" and "4 dvd n" and "4 \<le> i" and "length a = n" and "j < n"
  shows "a' ! j = (if i \<le> j then (if j mod 4 = 3 then 255 else a ! 3) else a ! j)"
  using assms
proof (induction "n - i" arbitrary: i r g b a rule: less_induct)
  case less
  show ?case
  proof (cases "i < n")
    case True
    have m: "n - (i + 4) < n - i" using True by simp
    have d: "4 dvd i + 4" using less.prems(2) by simp
    from True less.prems(2,3) have i3: "i + 3 < n" by presburger
    note mods = frame_mods [OF less.prems(2)]
    let ?a1 = "a[i := a ! 3, i + 1 := a ! 3, i + 2 := a ! 3, i + 3 := 255]"
    have fr: "(wr (wr (wr a i (rd a 3)) (i + 1) (rd (wr a i (rd a 3)) 3)) (i + 2)
            (rd (wr (wr a i (rd a 3)) (i + 1) (rd (wr a i (rd a 3)) 3)) 3))[i + 3 := 255] = ?a1"
      using less.prems(2) i3 less.prems(5) by (intro alpha_frame) simp_all
    have IH: "a' ! j = (if i + 4 \<le> j then (if j mod 4 = 3 then 255 else ?a1 ! 3) else ?a1 ! j)"
      by (rule less.hyps [OF m _ d less.prems(3) _ _ less.prems(6)])
         (use less.prems fr in \<open>simp_all add: unpackLoop_step [OF True]\<close>)
    have a3: "?a1 ! 3 = a ! 3" using less.prems(4) by simp
    show ?thesis
      by (rule frame_cases [of j i]) (use IH a3 i3 mods less.prems(4-6) in \<open>simp_all\<close>)
  next
    case False
    with less.prems show ?thesis by (simp add: unpackLoop_done)
  qed
qed

lemma unpackLoop_alpha:
  assumes "unpackLoop n 0 (r, g, b, a) = (r', g', b', a')"
    and "4 dvd n" and "length a = n" and "j < n"
  shows "a' ! j = (if j mod 4 = 3 then 255 else if j < 4 then a ! 3 else 255)"
proof -
  from assms(2,4) have n3: "0 + 3 < n" by presburger
  then have n0: "0 < n" by simp
  let ?a1 = "a[0 := a ! 3, 0 + 1 := a ! 3, 0 + 2 := a ! 3, 0 + 3 := 255]"
  have fr: "(wr (wr (wr a 0 (rd a 3)) (0 + 1) (rd (wr a 0 (rd a 3)) 3)) (0 + 2)
            (rd (wr (wr a 0 (rd a 3)) (0 + 1) (rd (wr a 0 (rd a 3)) 3)) 3))[0 + 3 := 255] = ?a1"
    using n3 assms(3) by (intro alpha_frame) simp_all
  from assms(1) have "unpackLoop n (0 + 4)
       (r[0 + 1 := 0, 0 + 2 := 0, 0 + 3 := 255], g[0 := 0, 0 + 2 := 0, 0 + 3 := 255],
        b[0 := 0, 0 + 1 := 0, 0 + 3 := 255], ?a1) = (r', g', b', a')"
    unfolding unpackLoop_step [OF n0] fr .
  from unpackLoop_alpha_later [OF this _ assms(2) _ _ assms(4)] assms(3)
  have "a' ! j = (if 0 + 4 \<le> j then (if j mod 4 = 3 then 255 else ?a1 ! 3) else ?a1 ! j)"
    by simp
  moreover have "?a1 ! 3 = 255" using n3 assms(3) by simp
  ultimately have e: "a' ! j = (if 4 \<le> j then 255 else ?a1 ! j)"
    by simp
  show ?thesis
    by (rule frame_cases [of j 0]) (use e n3 assms(3) in \<open>simp_all\<close>)
qed

lemma unpack_wf:
  assumes "length (data ctx) = 4 * width ctx * height ctx"
    and "unpackLoop (4 * width ctx * height ctx) 0 (data ctx, data ctx, data ctx, data ctx) = (r, g, b, a)"
  shows "unpack ctx =
     (\<lparr>width = width ctx, height = height ctx, data = r\<rparr>,
      \<lparr>width = width ctx, height = height ctx, data = g\<rparr>,
      \<lparr>width = width ctx, height = height ctx, data = b\<rparr>,
      \<lparr>width = width ctx, height = height ctx, data = a\<rparr>)"
proof -
  from unpackLoop_length [OF assms(2)] assms(1)
  have "length r = 4 * width ctx * height ctx" "length g = 4 * width ctx * height ctx"
    "length b = 4 * width ctx * height ctx" "length a = 4 * width ctx * height ctx"
    by simp_all
  then show ?thesis
    using assms by (simp add: unpack_def Let_def getImageData_full putImageData_full map_byteAt)
qed

text \<open>
  C10. In the alpha output of \<^verbatim>\<open>unpack\<close>, the colour bytes of the first pixel are the
  original alpha of the first pixel, and the colour bytes of every later pixel are 255: the
  first turn of the loop writes 255 into byte 3, which every turn reads. The alpha byte is
  255 everywhere.
\<close>

theorem unpack_alpha_reads_first_pixel:
  assumes "length (data ctx) = 4 * width ctx * height ctx" and "p < width ctx * height ctx"
  shows "(case unpack ctx of (rCanvas, gCanvas, bCanvas, aCanvas) \<Rightarrow>
           width aCanvas = width ctx \<and> height aCanvas = height ctx \<and>
           data aCanvas ! (4 * p) = (if p = 0 then data ctx ! 3 else 255) \<and>
           data aCanvas ! (4 * p + 1) = (if p = 0 then data ctx ! 3 else 255) \<and>
           data aCanvas ! (4 * p + 2) = (if p = 0 then data ctx ! 3 else 255) \<and>
           data aCanvas ! (4 * p + 3) = 255)"
proof -
  obtain r g b a where
    l: "unpackLoop (4 * width ctx * height ctx) 0 (data ctx, data ctx, data ctx, data ctx) = (r, g, b, a)"
    by (metis prod_cases4)
  have d: "4 dvd 4 * width ctx * height ctx" by simp
  have j: "4 * p < 4 * width ctx * height ctx" "4 * p + 1 < 4 * width ctx * height ctx"
    "4 * p + 2 < 4 * width ctx * height ctx" "4 * p + 3 < 4 * width ctx * height ctx"
    using assms(2) by simp_all
  have m: "(4 * p + 1) mod 4 = 1" "(4 * p + 2) mod 4 = 2" "(4 * p + 3) mod 4 = 3"
    by presburger+
  show ?thesis
    unfolding unpack_wf [OF assms(1) l]
    using unpackLoop_alpha [OF l d assms(1) j(1)] unpackLoop_alpha [OF l d assms(1) j(2)]
      unpackLoop_alpha [OF l d assms(1) j(3)] unpackLoop_alpha [OF l d assms(1) j(4)] m
    by (cases "p = 0") simp_all
qed

theorem unpack_alpha_reads_first_pixel_witness:
  "(case unpack \<lparr>width = 2, height = 1, data = [1, 2, 3, 4, 5, 6, 7, 8]\<rparr> of
      (rCanvas, gCanvas, bCanvas, aCanvas) \<Rightarrow>
        data aCanvas ! 4 = 255 \<and> data aCanvas ! 5 = 255 \<and> data aCanvas ! 6 = 255 \<and>
        data aCanvas ! 7 = 255)"
  using unpack_alpha_reads_first_pixel [of "\<lparr>width = 2, height = 1, data = [1, 2, 3, 4, 5, 6, 7, 8]\<rparr>" 1]
  by (simp split: prod.splits)

subsection \<open>Channel names that are no channel\<close>

lemma swizzleEntries_invalid:
  "\<exists>(s, t) \<in> set opts. channelIndexes t = None \<Longrightarrow>
   swizzleEntries m i opts d = Inl (Error ''Oh, so we're doing other data channels now'')"
proof (induction opts arbitrary: d)
  case Nil
  then show ?case by simp
next
  case (Cons e rest)
  obtain s t where e: "e = (s, t)" by (cases e)
  show ?case
  proof (cases "channelIndexes t")
    case None
    then show ?thesis by (simp add: e channelIndexes_None)
  next
    case (Some k)
    with Cons.prems e have "\<exists>(s, t) \<in> set rest. channelIndexes t = None" by auto
    from Cons.IH [OF this] channelIndexes_cases [OF Some] show ?thesis
      by (auto simp: e)
  qed
qed

lemma swizzleEntries_no_error:
  "\<forall>(s, t) \<in> set opts. channelIndexes t \<noteq> None \<Longrightarrow> \<exists>d'. swizzleEntries m i opts d = Inr d'"
proof (induction opts arbitrary: d)
  case Nil
  then show ?case by simp
next
  case (Cons e rest)
  obtain s t where e: "e = (s, t)" by (cases e)
  from Cons.prems e obtain k where k: "channelIndexes t = Some k" by auto
  from Cons.prems have "\<forall>(s, t) \<in> set rest. channelIndexes t \<noteq> None" by simp
  from Cons.IH [OF this] channelIndexes_cases [OF k] show ?case
    by (auto simp: e)
qed

lemma swizzleFrom_no_error:
  "\<forall>(s, t) \<in> set opts. channelIndexes t \<noteq> None \<Longrightarrow> \<exists>d'. swizzleFrom opts n i d = Inr d'"
proof (induction opts n i d rule: swizzleFrom.induct)
  case (1 options n i d)
  show ?case
  proof (cases "i < n")
    case True
    from swizzleEntries_no_error [OF "1.prems"] obtain d1 where
      d1: "swizzleFrame d options i = Inr d1" unfolding swizzleFrame_def by blast
    from "1.IH" [OF True d1 "1.prems"] d1 True show ?thesis
      by (subst swizzleFrom.simps) simp
  next
    case False
    then show ?thesis by (subst swizzleFrom.simps) simp
  qed
qed

subsection \<open>mask\<close>

lemma maskLoop_step:
  "i < n \<Longrightarrow>
   maskLoop m ci n i d =
     maskLoop m ci n (i + 4) (wr d (i + 3) (case ci of None \<Rightarrow> None | Some k \<Rightarrow> rd m (i + k)))"
  by (subst maskLoop.simps) simp

lemma maskLoop_done: "\<not> i < n \<Longrightarrow> maskLoop m ci n i d = d"
  by (subst maskLoop.simps) simp

lemma length_maskLoop [simp]: "length (maskLoop m ci n i d) = length d"
proof (induction "n - i" arbitrary: i d rule: less_induct)
  case less
  show ?case
  proof (cases "i < n")
    case True
    have "n - (i + 4) < n - i" using True by simp
    from less.hyps [OF this] show ?thesis by (simp add: maskLoop_step [OF True])
  next
    case False
    then show ?thesis by (simp add: maskLoop_done)
  qed
qed

lemma maskLoop_nth:
  assumes "4 dvd i" and "4 dvd n" and "length d = n" and "j < n"
  shows "maskLoop m ci n i d ! j =
     (if i \<le> j \<and> j mod 4 = 3
      then undef0 (case ci of None \<Rightarrow> None | Some k \<Rightarrow> rd m (j - 3 + k))
      else d ! j)"
  using assms
proof (induction "n - i" arbitrary: i d rule: less_induct)
  case less
  show ?case
  proof (cases "i < n")
    case True
    have m: "n - (i + 4) < n - i" using True by simp
    have d4: "4 dvd i + 4" using less.prems(1) by simp
    from True less.prems(1,2) have i3: "i + 3 < n" by presburger
    note mods = frame_mods [OF less.prems(1)]
    let ?v = "case ci of None \<Rightarrow> None | Some k \<Rightarrow> rd m (i + k)"
    have IH: "maskLoop m ci n (i + 4) (wr d (i + 3) ?v) ! j =
        (if i + 4 \<le> j \<and> j mod 4 = 3
         then undef0 (case ci of None \<Rightarrow> None | Some k \<Rightarrow> rd m (j - 3 + k))
         else wr d (i + 3) ?v ! j)"
      by (rule less.hyps [OF m d4 less.prems(2) _ less.prems(4)]) (simp add: less.prems(3))
    show ?thesis
      unfolding maskLoop_step [OF True]
      by (rule frame_cases [of j i]) (use IH i3 mods less.prems(3,4) in \<open>simp_all add: nth_wr split: option.split\<close>)
  next
    case False
    with less.prems show ?thesis by (simp add: maskLoop_done)
  qed
qed





subsection \<open>offset\<close>

lemma remainder_whole: "remainder (Fin (of_int n)) (Fin 1) = Fin 0"
  by (simp add: Math_trunc_def)

text \<open>
  C5. The code does not shift by pixels: it takes \<^verbatim>\<open>offset % 1\<close>, which is 0 for every
  whole number, and then does nothing. Shifting the two pixels of a 2 by 1 buffer by 1
  leaves both where they were, where the claim (and the documentation of \<^verbatim>\<open>offset\<close>) has
  them change places.
\<close>

theorem offset_by_whole_pixels_does_nothing:
  "offset ctx (Fin (of_int m)) (Fin (of_int n)) = ctx \<and>
   offset \<lparr>width = 2, height = 1, data = [1, 2, 3, 4, 5, 6, 7, 8]\<rparr> (Fin 1) (Fin 0) =
     \<lparr>width = 2, height = 1, data = [1, 2, 3, 4, 5, 6, 7, 8]\<rparr>"
proof
  show "offset ctx (Fin (of_int m)) (Fin (of_int n)) = ctx"
    unfolding offset_def Let_def remainder_whole by simp
  have r: "remainder (Fin 1) (Fin 1) = Fin 0" "remainder (Fin 0) (Fin 1) = Fin 0"
    using remainder_whole [of 1] remainder_whole [of 0] by simp_all
  show "offset \<lparr>width = 2, height = 1, data = [1, 2, 3, 4, 5, 6, 7, 8]\<rparr> (Fin 1) (Fin 0) =
     \<lparr>width = 2, height = 1, data = [1, 2, 3, 4, 5, 6, 7, 8]\<rparr>"
    unfolding offset_def Let_def r by simp
qed

subsection \<open>pack\<close>

text \<open>
  C3. A later claim on a destination that is already claimed is not dropped: the code
  deletes the key named by the entry's value (\<^verbatim>\<open>delete images[i].channels[channel[1]]\<close>),
  not the conflicting key. Here the second image claims R again, from its G channel: the
  warning is logged for image 1 and the packed R byte is 60, the second image's G, not 10.
  In the second call the second image is removed (its key and value are both R), and the
  loop then steps over the third image, whose claim on R overwrites the first (110).
\<close>

theorem pack_later_claim_overwrites:
  "pack (\<lambda>c w h. replicate (4 * w * h) 0)
     [(\<lparr>width = 1, height = 1, data = [10, 20, 30, 40]\<rparr>, [(''R'', ''R'')]),
      (\<lparr>width = 1, height = 1, data = [50, 60, 70, 80]\<rparr>, [(''R'', ''G'')])] 1 1 =
   (\<lparr>width = 1, height = 1, data = [60, 0, 0, 0]\<rparr>, [1]) \<and>
   pack (\<lambda>c w h. replicate (4 * w * h) 0)
     [(\<lparr>width = 1, height = 1, data = [10, 20, 30, 40]\<rparr>, [(''R'', ''R'')]),
      (\<lparr>width = 1, height = 1, data = [50, 60, 70, 80]\<rparr>, [(''R'', ''R'')]),
      (\<lparr>width = 1, height = 1, data = [90, 100, 110, 120]\<rparr>, [(''R'', ''B'')])] 1 1 =
   (\<lparr>width = 1, height = 1, data = [110, 0, 0, 0]\<rparr>, [1])"
  by code_simp

subsection \<open>The constants and the steps of the tone mapping\<close>

text \<open>Bounds of the decimal constants as doubles.\<close>

lemma lit_0031308: "inrange (3282 / 2 ^ 20) (3283 / 2 ^ 20) (rnd 0.0031308)"
  using isDouble_frac [of 3282 20] isDouble_frac [of 3283 20] by (intro rnd_in) simp_all

lemma lit_1292: "inrange 12 13 (rnd 12.92)"
  using isDouble_int [of 12] isDouble_int [of 13] by (intro rnd_in) simp_all

lemma lit_1055: "inrange (1080 / 2 ^ 10) (1081 / 2 ^ 10) (rnd 1.055)"
  using isDouble_frac [of 1080 10] isDouble_frac [of 1081 10] by (intro rnd_in) simp_all

lemma lit_0055: "inrange (56 / 2 ^ 10) (57 / 2 ^ 10) (rnd 0.055)"
  using isDouble_frac [of 56 10] isDouble_frac [of 57 10] by (intro rnd_in) simp_all

lemma lit_24: "inrange 2 3 (rnd 2.4)"
  using isDouble_int [of 2] isDouble_int [of 3] by (intro rnd_in) simp_all

lemma encode_exponent: "inrange (1 / 4) (1 / 2) (Fin 1 / rnd 2.4)"
  using isDouble_frac [of 1 2] isDouble_frac [of 1 1]
  by (intro divide_in [OF _ lit_24, of 1 1]) simp_all

lemma lit_004045: "inrange (41 / 2 ^ 10) (42 / 2 ^ 10) (rnd 0.04045)"
  using isDouble_frac [of 41 10] isDouble_frac [of 42 10] by (intro rnd_in) simp_all

lemma lit_02126: "inrange (217 / 2 ^ 10) (218 / 2 ^ 10) (rnd 0.2126)"
  using isDouble_frac [of 217 10] isDouble_frac [of 218 10] by (intro rnd_in) simp_all

lemma lit_07152: "inrange (732 / 2 ^ 10) (733 / 2 ^ 10) (rnd 0.7152)"
  using isDouble_frac [of 732 10] isDouble_frac [of 733 10] by (intro rnd_in) simp_all

lemma lit_00722: "inrange (73 / 2 ^ 10) (74 / 2 ^ 10) (rnd 0.0722)"
  using isDouble_frac [of 73 10] isDouble_frac [of 74 10] by (intro rnd_in) simp_all

lemma lit_tone:
  "inrange 2 3 toneA" "inrange 0 1 toneB" "inrange 2 3 toneC" "inrange 0 1 toneD"
  "inrange (1 / 2 ^ 3) (1 / 2 ^ 2) toneE"
  unfolding toneA_def toneB_def toneC_def toneD_def toneE_def
  using isDouble_int [of 2] isDouble_int [of 3] isDouble_frac [of 1 3] isDouble_frac [of 1 2]
  by (intro rnd_in; simp)+

lemma powr_encode:
  assumes "3282 / 2 ^ 20 \<le> (x::real)" and "x \<le> 1" and "1 / 4 \<le> e" and "e \<le> 1 / 2"
  shows "57 / 2 ^ 10 \<le> x powr e" and "x powr e \<le> 1"
proof -
  have pos: "0 < x" using assms(1) by simp
  have "(57 / 2 ^ 10 :: real) \<le> sqrt (3282 / 2 ^ 20)"
    by (rule real_le_rsqrt) (simp add: power2_eq_square)
  also have "\<dots> \<le> sqrt x" using assms(1) by simp
  also have "\<dots> = x powr (1 / 2)" using pos by (simp add: powr_half_sqrt)
  also have "\<dots> \<le> x powr e" using assms pos by (intro powr_mono') simp_all
  finally show "57 / 2 ^ 10 \<le> x powr e" .
  have "x powr e \<le> 1 powr e" using assms pos by (intro powr_mono2) simp_all
  then show "x powr e \<le> 1" by simp
qed

lemma round_byte:
  assumes "inrange 0 (1021 / 4) X"
  shows "isByte (Math_round X)"
proof -
  from inrangeE [OF assms] obtain x where x: "X = Fin x" "0 \<le> x" "x \<le> 1021 / 4" by blast
  have "0 \<le> \<lfloor>x + 1 / 2\<rfloor>" using x by simp
  moreover have "\<lfloor>x + 1 / 2\<rfloor> \<le> 255"
  proof -
    have "x + 1 / 2 < 256" using x by simp
    then have "\<lfloor>x + 1 / 2\<rfloor> < 256" by (simp add: floor_less_iff)
    then show ?thesis by simp
  qed
  ultimately show ?thesis by (simp add: x(1) isByte_def)
qed

text \<open>The last three steps of the pipeline on a value that the clamp lets through.\<close>

lemma encode_unit:
  assumes "0 \<le> x" and "x \<le> 1"
  shows "inrange 0 (1025 / 2 ^ 10) (linearToSRGB (Fin x))"
proof (cases "Fin x \<le> rnd 0.0031308")
  case True
  from inrangeE [OF lit_0031308] obtain k where k: "rnd 0.0031308 = Fin k" "k \<le> 3283 / 2 ^ 20" by blast
  from True have "x \<le> 3283 / 2 ^ 20" using k by simp
  with assms have "inrange 0 (3283 / 2 ^ 20) (Fin x)" by simp
  from times_in [OF this lit_1292, of 0 "1025 / 2 ^ 10"] isDouble_frac [of 1025 10]
  have "inrange 0 (1025 / 2 ^ 10) (Fin x * rnd 12.92)" by simp
  with True show ?thesis by (simp only: linearToSRGB_def if_True)
next
  case False
  from inrangeE [OF lit_0031308] obtain k where k: "rnd 0.0031308 = Fin k" "3282 / 2 ^ 20 \<le> k" by blast
  from False have lo: "3282 / 2 ^ 20 \<le> x" using k by simp
  then have pos: "0 < x" "x \<noteq> 0" by simp_all
  from inrangeE [OF encode_exponent] obtain e where
    e: "Fin 1 / rnd 2.4 = Fin e" "1 / 4 \<le> e" "e \<le> 1 / 2" by blast
  have e0: "e \<noteq> 0" using e by simp
  have "Math_pow (Fin x) (Fin e) = rnd (x powr e)" using pos e0 by simp
  moreover have "inrange (57 / 2 ^ 10) 1 (rnd (x powr e))"
    using powr_encode [OF lo assms(2) e(2,3)] isDouble_frac [of 57 10]
    by (intro rnd_in) simp_all
  ultimately have p: "inrange (57 / 2 ^ 10) 1 (Math_pow (Fin x) (Fin 1 / rnd 2.4))"
    by (simp only: e(1))
  from times_in [OF lit_1055 p, of "57 / 2 ^ 10" "1081 / 2 ^ 10"]
    isDouble_frac [of 57 10] isDouble_frac [of 1081 10]
  have m: "inrange (57 / 2 ^ 10) (1081 / 2 ^ 10) (rnd 1.055 * Math_pow (Fin x) (Fin 1 / rnd 2.4))"
    by simp
  from minus_in [OF m lit_0055, of 0 "1025 / 2 ^ 10"] isDouble_frac [of 1025 10]
  have "inrange 0 (1025 / 2 ^ 10) (rnd 1.055 * Math_pow (Fin x) (Fin 1 / rnd 2.4) - rnd 0.055)"
    by simp
  with False show ?thesis by (simp only: linearToSRGB_def if_False)
qed

lemma scale_unit:
  assumes "0 \<le> x" and "x \<le> 1"
  shows "isByte (Math_round (linearToSRGB (Fin x) * Fin 255))"
proof -
  have "inrange 255 255 (Fin 255)" by simp
  from times_in [OF encode_unit [OF assms] this, of 0 "1021 / 4"] isDouble_frac [of 1021 2]
  have "inrange 0 (1021 / 4) (linearToSRGB (Fin x) * Fin 255)" by simp
  then show ?thesis by (rule round_byte)
qed

lemma scale_zero: "Math_round (linearToSRGB (Fin 0) * Fin 255) = Fin 0"
proof -
  from inrangeE [OF lit_0031308] obtain k where k: "rnd 0.0031308 = Fin k" "3282 / 2 ^ 20 \<le> k" by blast
  from inrangeE [OF lit_1292] obtain c where c: "rnd 12.92 = Fin c" by blast
  have "Fin 0 \<le> rnd 0.0031308" using k by simp
  then have "linearToSRGB (Fin 0) = Fin 0 * rnd 12.92" by (simp only: linearToSRGB_def if_True)
  then show ?thesis using c by simp
qed

lemma scale_one: "Math_round (linearToSRGB (Fin 1) * Fin 255) = Fin 255"
proof -
  from inrangeE [OF lit_0031308] obtain k where k: "rnd 0.0031308 = Fin k" "k \<le> 3283 / 2 ^ 20" by blast
  have n: "\<not> Fin 1 \<le> rnd 0.0031308" using k by simp
  from inrangeE [OF encode_exponent] obtain e where
    e: "Fin 1 / rnd 2.4 = Fin e" "1 / 4 \<le> e" by blast
  have "Math_pow (Fin 1) (Fin 1 / rnd 2.4) = Fin 1" using e by simp
  then have "linearToSRGB (Fin 1) = rnd 1.055 * Fin 1 - rnd 0.055"
    using n by (simp only: linearToSRGB_def if_False)
  moreover have "inrange (1080 / 2 ^ 10) (1081 / 2 ^ 10) (rnd 1.055 * Fin 1)"
    using times_in [OF lit_1055, of 1 1 "Fin 1" "1080 / 2 ^ 10" "1081 / 2 ^ 10"]
      isDouble_frac [of 1080 10] isDouble_frac [of 1081 10] by simp
  from minus_in [OF this lit_0055, of "1023 / 2 ^ 10" "1025 / 2 ^ 10"]
    isDouble_frac [of 1023 10] isDouble_frac [of 1025 10]
  have "inrange (1023 / 2 ^ 10) (1025 / 2 ^ 10) (rnd 1.055 * Fin 1 - rnd 0.055)" by simp
  ultimately have "inrange (1023 / 2 ^ 10) (1025 / 2 ^ 10) (linearToSRGB (Fin 1))" by simp
  from times_in [OF this, of 255 255 "Fin 255" "1019 / 4" "1021 / 4"]
    isDouble_frac [of 1019 2] isDouble_frac [of 1021 2]
  have "inrange (1019 / 4) (1021 / 4) (linearToSRGB (Fin 1) * Fin 255)" by simp
  from round_in [OF this, of 255] show ?thesis by simp
qed

lemma scale_NaN: "Math_round (linearToSRGB NaN * Fin 255) = NaN"
proof -
  from inrangeE [OF encode_exponent] obtain e where
    e: "Fin 1 / rnd 2.4 = Fin e" "1 / 4 \<le> e" by blast
  have "Math_pow NaN (Fin 1 / rnd 2.4) = NaN" using e by simp
  moreover have "\<not> NaN \<le> rnd 0.0031308" by simp
  ultimately have "linearToSRGB NaN = rnd 1.055 * NaN - rnd 0.055"
    by (simp only: linearToSRGB_def if_False)
  then show ?thesis by simp
qed

lemma clamp_cases:
  "clamp (Fin 0) (Fin 1) v =
     (case v of NaN \<Rightarrow> NaN | NInf \<Rightarrow> Fin 0 | PInf \<Rightarrow> Fin 1
      | Fin x \<Rightarrow> if x < 0 then Fin 0 else if 1 < x then Fin 1 else Fin x)"
  by (cases v) (simp_all add: clamp_def)

lemma decode_zero: "sRGBToLinear (Fin 0 / Fin 255) = Fin 0"
proof -
  from inrangeE [OF lit_004045] obtain k where k: "rnd 0.04045 = Fin k" "41 / 2 ^ 10 \<le> k" by blast
  from inrangeE [OF lit_1292] obtain c where c: "rnd 12.92 = Fin c" "12 \<le> c" by blast
  have "Fin 0 \<le> rnd 0.04045" using k by simp
  then have "sRGBToLinear (Fin 0) = Fin 0 / rnd 12.92" by (simp only: sRGBToLinear_def if_True)
  then show ?thesis using c by simp
qed

lemma tonemap_zero: "tonemap (Fin 0) = Fin 0"
proof -
  from inrangeE [OF lit_tone(1)] obtain a where a: "toneA = Fin a" by blast
  from inrangeE [OF lit_tone(2)] obtain b where b: "toneB = Fin b" "0 \<le> b" "b \<le> 1" by blast
  from inrangeE [OF lit_tone(3)] obtain c where c: "toneC = Fin c" by blast
  from inrangeE [OF lit_tone(4)] obtain d where d: "toneD = Fin d" "0 \<le> d" "d \<le> 1" by blast
  have "inrange 0 1 (rnd b)" using b by (intro rnd_in) simp_all
  then obtain b' where b': "rnd b = Fin b'" using inrangeE by blast
  have "inrange 0 1 (rnd d)" using d by (intro rnd_in) simp_all
  then obtain d' where d': "rnd d = Fin d'" using inrangeE by blast
  have "inrange (1 / 2 ^ 3) (1 / 2 ^ 2) (Fin 0 + toneE)"
    using plus_in [OF _ lit_tone(5), of 0 0 "Fin 0" "1 / 2 ^ 3" "1 / 2 ^ 2"]
      isDouble_frac [of 1 3] isDouble_frac [of 1 2] by simp
  then obtain e where e: "Fin 0 + toneE = Fin e" "1 / 2 ^ 3 \<le> e" using inrangeE by blast
  have e0: "e \<noteq> 0" using e(2) by auto
  have "tonemap (Fin 0) = (Fin 0 * (toneA * Fin 0 + toneB)) / (Fin 0 * (toneC * Fin 0 + toneD) + toneE)"
    by (simp only: tonemap_def)
  also have "\<dots> = Fin 0 / (Fin 0 + toneE)"
    by (simp add: a b(1) c d(1) b' d')
  also have "\<dots> = Fin 0" using e0 by (simp add: e(1))
  finally show ?thesis .
qed

lemma tonemap_PInf: "tonemap PInf = NaN"
proof -
  from inrangeE [OF lit_tone(1)] obtain a where a: "toneA = Fin a" "2 \<le> a" by blast
  from inrangeE [OF lit_tone(2)] obtain b where b: "toneB = Fin b" by blast
  from inrangeE [OF lit_tone(3)] obtain c where c: "toneC = Fin c" "2 \<le> c" by blast
  from inrangeE [OF lit_tone(4)] obtain d where d: "toneD = Fin d" by blast
  from inrangeE [OF lit_tone(5)] obtain e where e: "toneE = Fin e" by blast
  show ?thesis using a(2) c(2) by (simp add: tonemap_def a(1) b c(1) d e)
qed

lemma tonemap_NaN: "tonemap NaN = NaN"
  by (simp add: tonemap_def)

lemma tonemap_huge:
  assumes "inrange (2 ^ 600) (2 ^ 700) X"
  shows "tonemap X = NaN"
proof -
  have a: "inrange (2 ^ 601) (2 ^ 702) (toneA * X)"
    using times_in [OF lit_tone(1) assms, of "2 ^ 601" "2 ^ 702"]
      isDouble_power2 [of 601] isDouble_power2 [of 702] by simp
  have b: "inrange (2 ^ 601) (2 ^ 703) (toneA * X + toneB)"
    using plus_in [OF a lit_tone(2), of "2 ^ 601" "2 ^ 703"]
      isDouble_power2 [of 601] isDouble_power2 [of 703] by simp
  have n: "X * (toneA * X + toneB) = PInf"
    using times_overflow [OF assms b] by simp
  have c: "inrange (2 ^ 601) (2 ^ 702) (toneC * X)"
    using times_in [OF lit_tone(3) assms, of "2 ^ 601" "2 ^ 702"]
      isDouble_power2 [of 601] isDouble_power2 [of 702] by simp
  have d: "inrange (2 ^ 601) (2 ^ 703) (toneC * X + toneD)"
    using plus_in [OF c lit_tone(4), of "2 ^ 601" "2 ^ 703"]
      isDouble_power2 [of 601] isDouble_power2 [of 703] by simp
  have m: "X * (toneC * X + toneD) = PInf"
    using times_overflow [OF assms d] by simp
  from inrangeE [OF lit_tone(5)] obtain e where e: "toneE = Fin e" by blast
  show ?thesis unfolding tonemap_def n m e by simp
qed

lemma powr_decode:
  assumes "1 / 2 \<le> (q::real)" and "q \<le> 2" and "2 \<le> k" and "k \<le> 3"
  shows "1 / 8 \<le> q powr k" and "q powr k \<le> 8"
proof -
  have pos: "0 < q" using assms(1) by simp
  have k0: "0 \<le> k" using assms(3) by simp
  have "(1 / 8 :: real) = (1 / 2) powr 3" by (simp add: power3_eq_cube)
  also have "\<dots> \<le> (1 / 2) powr k" using assms(4) by (intro powr_mono') simp_all
  also have "\<dots> \<le> q powr k" using assms(1) k0 by (intro powr_mono2) simp_all
  finally show "1 / 8 \<le> q powr k" .
  have "q powr k \<le> 2 powr k" using assms(2) pos k0 by (intro powr_mono2) simp_all
  also have "\<dots> \<le> 2 powr 3" using assms(4) by (intro powr_mono) simp_all
  also have "\<dots> = 8" by simp
  finally show "q powr k \<le> 8" .
qed

lemma decode_white: "inrange (1 / 2 ^ 3) 8 (sRGBToLinear (Fin 255 / Fin 255))"
proof -
  have one: "Fin 255 / Fin 255 = Fin 1" by simp
  have n: "\<not> Fin 1 \<le> rnd 0.04045"
    using not_le_in [OF _ lit_004045, of 1 1 "Fin 1"] by simp
  have s: "inrange 1 2 (Fin 1 + rnd 0.055)"
    using plus_in [OF _ lit_0055, of 1 1 "Fin 1" 1 2] isDouble_int [of 2] by simp
  have "inrange (1 / 2) 2 ((Fin 1 + rnd 0.055) / rnd 1.055)"
    using divide_in [OF s lit_1055, of "1 / 2" 2] isDouble_frac [of 1 1] isDouble_int [of 2] by simp
  from inrangeE [OF this] obtain q where
    q: "(Fin 1 + rnd 0.055) / rnd 1.055 = Fin q" "1 / 2 \<le> q" "q \<le> 2" by blast
  from inrangeE [OF lit_24] obtain k where k: "rnd 2.4 = Fin k" "2 \<le> k" "k \<le> 3" by blast
  have "Math_pow (Fin q) (Fin k) = rnd (q powr k)" using q(2) k(2) by simp
  moreover have "inrange (1 / 2 ^ 3) 8 (rnd (q powr k))"
    using powr_decode [OF q(2,3) k(2,3)] isDouble_frac [of 1 3] isDouble_int [of 8]
    by (intro rnd_in) simp_all
  ultimately show ?thesis using n by (simp only: one sRGBToLinear_def if_False q(1) k(1))
qed

subsection \<open>hdrToSdr: what the clamp does\<close>

lemma clampedByte_encode:
  "clampedByte v (Math_round (linearToSRGB (clamp (Fin 0) (Fin 1) v) * Fin 255))"
proof (cases v)
  case (Fin x)
  consider "x < 0" | "x = 0" | "0 < x" "x < 1" | "x = 1" | "1 < x" by linarith
  then show ?thesis
  proof cases
    case 3
    then have "isByte (Math_round (linearToSRGB (Fin x) * Fin 255))"
      by (intro scale_unit) simp_all
    with 3 show ?thesis by (simp add: Fin clamp_cases clampedByte_def)
  qed (simp_all add: Fin clamp_cases clampedByte_def scale_zero scale_one)
qed (simp_all add: clamp_cases clampedByte_def scale_zero scale_one scale_NaN)

lemma isByte_simps [simp]: "isByte (Fin 0)" "isByte (Fin 255)" "\<not> isByte NaN"
  by (simp_all add: isByte_def)

lemma clampedByte_range: "clampedByte v out \<Longrightarrow> isByteOrNaN out"
  by (cases v; cases out) (auto simp: clampedByte_def isByteOrNaN_def isByte_def split: if_splits)

lemma hdrToSdr_after_clamp:
  "hdrToSdr r g b intensity exposure contrast saturation highlightCompression shadowLifting =
     (case beforeClamp r g b intensity exposure contrast saturation highlightCompression shadowLifting of
        (vr, vg, vb) \<Rightarrow>
          (Math_round (linearToSRGB (clamp (Fin 0) (Fin 1) vr) * Fin 255),
           Math_round (linearToSRGB (clamp (Fin 0) (Fin 1) vg) * Fin 255),
           Math_round (linearToSRGB (clamp (Fin 0) (Fin 1) vb) * Fin 255)))"
  by (simp only: hdrToSdr_def beforeClamp_def Let_def prod.case)

text \<open>
  Black with a shadow lifting s and the other parameters at 1: every channel is s when the
  luminance is taken.
\<close>

lemma lifted_black:
  assumes "isDouble s"
  shows "beforeClamp (Fin 0) (Fin 0) (Fin 0) (Fin 1) (Fin 1) (Fin 1) (Fin 1) (Fin 1) (Fin s) =
    (let L = rnd 0.2126 * Fin s + rnd 0.7152 * Fin s + rnd 0.0722 * Fin s;
         v = L + Fin 1 * (Fin s - L)
     in (v, v, v))"
proof -
  have p: "Math_pow (Fin 0 * (Fin 1 * Fin 1)) (Fin 1) = Fin 0" by simp
  have t: "tonemap (Fin 0 * Fin 1) + Fin s = Fin s"
    using tonemap_zero assms by (simp add: rnd_exact)
  show ?thesis
    unfolding beforeClamp_def Let_def decode_zero p t ..
qed

lemma lifted_black_negative:
  "\<exists>x. x \<le> 0 \<and>
     beforeClamp (Fin 0) (Fin 0) (Fin 0) (Fin 1) (Fin 1) (Fin 1) (Fin 1) (Fin 1) (Fin (- 1)) =
       (Fin x, Fin x, Fin x)"
proof -
  have s: "inrange (- 1) (- 1) (Fin (- 1))" by simp
  have d: "isDouble (- 1)" by simp
  have a: "inrange (- (218 / 2 ^ 10)) (- (217 / 2 ^ 10)) (rnd 0.2126 * Fin (- 1))"
    using times_in_neg [OF lit_02126 s, of "- (218 / 2 ^ 10)" "- (217 / 2 ^ 10)"]
      isDouble_frac [of 218 10] isDouble_frac [of 217 10] by simp
  have b: "inrange (- (733 / 2 ^ 10)) (- (732 / 2 ^ 10)) (rnd 0.7152 * Fin (- 1))"
    using times_in_neg [OF lit_07152 s, of "- (733 / 2 ^ 10)" "- (732 / 2 ^ 10)"]
      isDouble_frac [of 733 10] isDouble_frac [of 732 10] by simp
  have c: "inrange (- (74 / 2 ^ 10)) (- (73 / 2 ^ 10)) (rnd 0.0722 * Fin (- 1))"
    using times_in_neg [OF lit_00722 s, of "- (74 / 2 ^ 10)" "- (73 / 2 ^ 10)"]
      isDouble_frac [of 74 10] isDouble_frac [of 73 10] by simp
  have ab: "inrange (- (951 / 2 ^ 10)) (- (949 / 2 ^ 10)) (rnd 0.2126 * Fin (- 1) + rnd 0.7152 * Fin (- 1))"
    using plus_in [OF a b, of "- (951 / 2 ^ 10)" "- (949 / 2 ^ 10)"]
      isDouble_frac [of 951 10] isDouble_frac [of 949 10] by simp
  have L: "inrange (- (1025 / 2 ^ 10)) (- (1022 / 2 ^ 10))
      (rnd 0.2126 * Fin (- 1) + rnd 0.7152 * Fin (- 1) + rnd 0.0722 * Fin (- 1))"
    using plus_in [OF ab c, of "- (1025 / 2 ^ 10)" "- (1022 / 2 ^ 10)"]
      isDouble_frac [of 1025 10] isDouble_frac [of 1022 10] by simp
  have m: "inrange (- (2 / 2 ^ 10)) (1 / 2 ^ 10)
      (Fin (- 1) - (rnd 0.2126 * Fin (- 1) + rnd 0.7152 * Fin (- 1) + rnd 0.0722 * Fin (- 1)))"
    using minus_in [OF s L, of "- (2 / 2 ^ 10)" "1 / 2 ^ 10"]
      isDouble_frac [of 2 10] isDouble_frac [of 1 10] by simp
  have m1: "inrange (- (2 / 2 ^ 10)) (1 / 2 ^ 10)
      (Fin 1 * (Fin (- 1) - (rnd 0.2126 * Fin (- 1) + rnd 0.7152 * Fin (- 1) + rnd 0.0722 * Fin (- 1))))"
    using one_times_in [OF m] isDouble_frac [of 2 10] isDouble_frac [of 1 10] by simp
  have "inrange (- (1027 / 2 ^ 10)) (- (1021 / 2 ^ 10))
      (rnd 0.2126 * Fin (- 1) + rnd 0.7152 * Fin (- 1) + rnd 0.0722 * Fin (- 1) +
       Fin 1 * (Fin (- 1) - (rnd 0.2126 * Fin (- 1) + rnd 0.7152 * Fin (- 1) + rnd 0.0722 * Fin (- 1))))"
    using plus_in [OF L m1, of "- (1027 / 2 ^ 10)" "- (1021 / 2 ^ 10)"]
      isDouble_frac [of 1027 10] isDouble_frac [of 1021 10] by simp
  from inrangeE [OF this] obtain x where
    x: "rnd 0.2126 * Fin (- 1) + rnd 0.7152 * Fin (- 1) + rnd 0.0722 * Fin (- 1) +
       Fin 1 * (Fin (- 1) - (rnd 0.2126 * Fin (- 1) + rnd 0.7152 * Fin (- 1) + rnd 0.0722 * Fin (- 1))) = Fin x"
      "x \<le> - (1021 / 2 ^ 10)" by blast
  have "x \<le> 0" using x(2) by simp
  moreover have "beforeClamp (Fin 0) (Fin 0) (Fin 0) (Fin 1) (Fin 1) (Fin 1) (Fin 1) (Fin 1) (Fin (- 1)) =
       (Fin x, Fin x, Fin x)"
    unfolding lifted_black [OF d] Let_def x(1) ..
  ultimately show ?thesis by blast
qed

lemma lifted_black_large:
  "\<exists>x. 1 \<le> x \<and>
     beforeClamp (Fin 0) (Fin 0) (Fin 0) (Fin 1) (Fin 1) (Fin 1) (Fin 1) (Fin 1) (Fin 2) =
       (Fin x, Fin x, Fin x)"
proof -
  have s: "inrange 2 2 (Fin 2)" by simp
  have d: "isDouble 2" using isDouble_int [of 2] by simp
  have a: "inrange (434 / 2 ^ 10) (436 / 2 ^ 10) (rnd 0.2126 * Fin 2)"
    using times_in [OF lit_02126 s, of "434 / 2 ^ 10" "436 / 2 ^ 10"]
      isDouble_frac [of 434 10] isDouble_frac [of 436 10] by simp
  have b: "inrange (1464 / 2 ^ 10) (1466 / 2 ^ 10) (rnd 0.7152 * Fin 2)"
    using times_in [OF lit_07152 s, of "1464 / 2 ^ 10" "1466 / 2 ^ 10"]
      isDouble_frac [of 1464 10] isDouble_frac [of 1466 10] by simp
  have c: "inrange (146 / 2 ^ 10) (148 / 2 ^ 10) (rnd 0.0722 * Fin 2)"
    using times_in [OF lit_00722 s, of "146 / 2 ^ 10" "148 / 2 ^ 10"]
      isDouble_frac [of 146 10] isDouble_frac [of 148 10] by simp
  have ab: "inrange (1898 / 2 ^ 10) (1902 / 2 ^ 10) (rnd 0.2126 * Fin 2 + rnd 0.7152 * Fin 2)"
    using plus_in [OF a b, of "1898 / 2 ^ 10" "1902 / 2 ^ 10"]
      isDouble_frac [of 1898 10] isDouble_frac [of 1902 10] by simp
  have L: "inrange (2044 / 2 ^ 10) (2050 / 2 ^ 10)
      (rnd 0.2126 * Fin 2 + rnd 0.7152 * Fin 2 + rnd 0.0722 * Fin 2)"
    using plus_in [OF ab c, of "2044 / 2 ^ 10" "2050 / 2 ^ 10"]
      isDouble_frac [of 2044 10] isDouble_frac [of 2050 10] by simp
  have m: "inrange (- (2 / 2 ^ 10)) (4 / 2 ^ 10)
      (Fin 2 - (rnd 0.2126 * Fin 2 + rnd 0.7152 * Fin 2 + rnd 0.0722 * Fin 2))"
    using minus_in [OF s L, of "- (2 / 2 ^ 10)" "4 / 2 ^ 10"]
      isDouble_frac [of 2 10] isDouble_frac [of 4 10] by simp
  have m1: "inrange (- (2 / 2 ^ 10)) (4 / 2 ^ 10)
      (Fin 1 * (Fin 2 - (rnd 0.2126 * Fin 2 + rnd 0.7152 * Fin 2 + rnd 0.0722 * Fin 2)))"
    using one_times_in [OF m] isDouble_frac [of 2 10] isDouble_frac [of 4 10] by simp
  have "inrange (2042 / 2 ^ 10) (2054 / 2 ^ 10)
      (rnd 0.2126 * Fin 2 + rnd 0.7152 * Fin 2 + rnd 0.0722 * Fin 2 +
       Fin 1 * (Fin 2 - (rnd 0.2126 * Fin 2 + rnd 0.7152 * Fin 2 + rnd 0.0722 * Fin 2)))"
    using plus_in [OF L m1, of "2042 / 2 ^ 10" "2054 / 2 ^ 10"]
      isDouble_frac [of 2042 10] isDouble_frac [of 2054 10] by simp
  from inrangeE [OF this] obtain x where
    x: "rnd 0.2126 * Fin 2 + rnd 0.7152 * Fin 2 + rnd 0.0722 * Fin 2 +
       Fin 1 * (Fin 2 - (rnd 0.2126 * Fin 2 + rnd 0.7152 * Fin 2 + rnd 0.0722 * Fin 2)) = Fin x"
      "2042 / 2 ^ 10 \<le> x" by blast
  have "1 \<le> x" using x(2) by simp
  moreover have "beforeClamp (Fin 0) (Fin 0) (Fin 0) (Fin 1) (Fin 1) (Fin 1) (Fin 1) (Fin 1) (Fin 2) =
       (Fin x, Fin x, Fin x)"
    unfolding lifted_black [OF d] Let_def x(1) ..
  ultimately show ?thesis by blast
qed

text \<open>
  C7, amended. \<^verbatim>\<open>hdrToSdr\<close> has no error path, and whatever numbers it is given, each
  component of its result is fixed by the value of that channel at the clamp: NaN when that
  value is NaN, 0 when it is negative (or zero), 255 when it is 1 or more, and a whole
  number from 0 to 255 otherwise. So negative and too large values, the infinities among
  them, are clamped, and each component is NaN or a whole number from 0 to 255.
\<close>

theorem hdrToSdr_clamps_or_NaN:
  "(case beforeClamp r g b intensity exposure contrast saturation highlightCompression shadowLifting of
      (vr, vg, vb) \<Rightarrow>
        (case hdrToSdr r g b intensity exposure contrast saturation highlightCompression shadowLifting of
           (r', g', b') \<Rightarrow>
             clampedByte vr r' \<and> clampedByte vg g' \<and> clampedByte vb b' \<and>
             isByteOrNaN r' \<and> isByteOrNaN g' \<and> isByteOrNaN b'))"
  unfolding hdrToSdr_after_clamp
  using clampedByte_encode clampedByte_range [OF clampedByte_encode]
  by (simp split: prod.split)

theorem hdrToSdr_clamps_or_NaN_witness:
  "hdrToSdr (Fin 0) (Fin 0) (Fin 0) (Fin 1) (Fin 1) (Fin 1) (Fin 1) (Fin 1) (Fin (- 1)) =
     (Fin 0, Fin 0, Fin 0) \<and>
   hdrToSdr (Fin 0) (Fin 0) (Fin 0) (Fin 1) (Fin 1) (Fin 1) (Fin 1) (Fin 1) (Fin 2) =
     (Fin 255, Fin 255, Fin 255)"
proof
  from lifted_black_negative obtain x where x: "x \<le> 0"
    "beforeClamp (Fin 0) (Fin 0) (Fin 0) (Fin 1) (Fin 1) (Fin 1) (Fin 1) (Fin 1) (Fin (- 1)) =
       (Fin x, Fin x, Fin x)" by blast
  from hdrToSdr_clamps_or_NaN [of "Fin 0" "Fin 0" "Fin 0" "Fin 1" "Fin 1" "Fin 1" "Fin 1" "Fin 1" "Fin (- 1)"]
  show "hdrToSdr (Fin 0) (Fin 0) (Fin 0) (Fin 1) (Fin 1) (Fin 1) (Fin 1) (Fin 1) (Fin (- 1)) =
     (Fin 0, Fin 0, Fin 0)"
    using x(1) unfolding x(2) by (simp add: clampedByte_def split: prod.splits)
next
  from lifted_black_large obtain x where x: "1 \<le> x"
    "beforeClamp (Fin 0) (Fin 0) (Fin 0) (Fin 1) (Fin 1) (Fin 1) (Fin 1) (Fin 1) (Fin 2) =
       (Fin x, Fin x, Fin x)" by blast
  from hdrToSdr_clamps_or_NaN [of "Fin 0" "Fin 0" "Fin 0" "Fin 1" "Fin 1" "Fin 1" "Fin 1" "Fin 1" "Fin 2"]
  show "hdrToSdr (Fin 0) (Fin 0) (Fin 0) (Fin 1) (Fin 1) (Fin 1) (Fin 1) (Fin 1) (Fin 2) =
     (Fin 255, Fin 255, Fin 255)"
    using x(1) unfolding x(2) by (simp add: clampedByte_def split: prod.splits)
qed

text \<open>
  C7, as written, fails: \<^verbatim>\<open>clamp\<close> lets NaN through (both of its comparisons are false),
  so a NaN that arises in the pipeline is returned. White with intensity -1 and contrast
  1/2 takes the square root of a negative number; white with an infinite intensity divides
  infinity by infinity in the filmic curve, and so does white with the intensity
  \<^verbatim>\<open>1e200\<close>, whose products in the curve overflow.
\<close>

theorem hdrToSdr_returns_NaN:
  "hdrToSdr (Fin 255) (Fin 255) (Fin 255) (Fin (- 1)) (Fin 1) (Fin (1 / 2)) (Fin 1) (Fin 1) (Fin 0) =
     (NaN, NaN, NaN) \<and>
   hdrToSdr (Fin 255) (Fin 255) (Fin 255) PInf (Fin 1) (Fin 1) (Fin 1) (Fin 1) (Fin 0) =
     (NaN, NaN, NaN) \<and>
   hdrToSdr (Fin 255) (Fin 255) (Fin 255) (rnd (10 ^ 200)) (Fin 1) (Fin 1) (Fin 1) (Fin 1) (Fin 0) =
     (NaN, NaN, NaN)"
proof -
  from inrangeE [OF decode_white] obtain w where
    w: "sRGBToLinear (Fin 255 / Fin 255) = Fin w" "1 / 2 ^ 3 \<le> w" "w \<le> 8" by blast
  have m: "Fin (- 1) * Fin 1 = Fin (- 1)" by (simp add: rnd_exact)
  have "inrange (- 8) (- (1 / 2 ^ 3)) (Fin w * Fin (- 1))"
    using w(2,3) isDouble_int [of 8] isDouble_frac [of 1 3] by (simp del: inrange_Fin) (intro rnd_in, simp_all)
  then obtain v where v: "Fin w * Fin (- 1) = Fin v" "v \<le> - (1 / 2 ^ 3)" using inrangeE by blast
  have p: "Math_pow (Fin w * (Fin (- 1) * Fin 1)) (Fin (1 / 2)) = NaN"
    unfolding m v(1) using v(2) by (simp add: isInteger_def)
  have q: "Math_pow (Fin w * (PInf * Fin 1)) (Fin 1) = PInf"
    using w(2) by simp
  have c: "clamp (Fin 0) (Fin 1) NaN = NaN" by (simp add: clamp_def)
  have first: "hdrToSdr (Fin 255) (Fin 255) (Fin 255) (Fin (- 1)) (Fin 1) (Fin (1 / 2)) (Fin 1) (Fin 1) (Fin 0) =
     (NaN, NaN, NaN)"
    unfolding hdrToSdr_def Let_def w(1) p by (simp add: tonemap_NaN c scale_NaN)
  have second: "hdrToSdr (Fin 255) (Fin 255) (Fin 255) PInf (Fin 1) (Fin 1) (Fin 1) (Fin 1) (Fin 0) =
     (NaN, NaN, NaN)"
    unfolding hdrToSdr_def Let_def w(1) q by (simp add: tonemap_PInf c scale_NaN)
  have k: "inrange 1 1 (Fin 1)" by simp
  have i: "inrange (2 ^ 664) (2 ^ 665) (rnd (10 ^ 200))"
    using isDouble_power2 [of 664] isDouble_power2 [of 665] by (intro rnd_in) simp_all
  have f: "inrange (2 ^ 664) (2 ^ 665) (rnd (10 ^ 200) * Fin 1)"
    using times_in [OF i k, of "2 ^ 664" "2 ^ 665"] isDouble_power2 [of 664] isDouble_power2 [of 665]
    by simp
  have x: "inrange (2 ^ 661) (2 ^ 668) (sRGBToLinear (Fin 255 / Fin 255) * (rnd (10 ^ 200) * Fin 1))"
    using times_in [OF decode_white f, of "2 ^ 661" "2 ^ 668"]
      isDouble_power2 [of 661] isDouble_power2 [of 668] by simp
  have y: "inrange (2 ^ 661) (2 ^ 668)
      (Math_pow (sRGBToLinear (Fin 255 / Fin 255) * (rnd (10 ^ 200) * Fin 1)) (Fin 1))"
    using pow_one_in [OF x] isDouble_power2 [of 661] isDouble_power2 [of 668] by simp
  have h: "inrange (2 ^ 661) (2 ^ 668)
      (Math_pow (sRGBToLinear (Fin 255 / Fin 255) * (rnd (10 ^ 200) * Fin 1)) (Fin 1) * Fin 1)"
    using times_in [OF y k, of "2 ^ 661" "2 ^ 668"] isDouble_power2 [of 661] isDouble_power2 [of 668]
    by simp
  have t: "tonemap (Math_pow (sRGBToLinear (Fin 255 / Fin 255) * (rnd (10 ^ 200) * Fin 1)) (Fin 1) * Fin 1)
      = NaN"
    using inrange_widen [OF h, of "2 ^ 600" "2 ^ 700"] by (intro tonemap_huge) simp
  have third: "hdrToSdr (Fin 255) (Fin 255) (Fin 255) (rnd (10 ^ 200)) (Fin 1) (Fin 1) (Fin 1) (Fin 1) (Fin 0) =
     (NaN, NaN, NaN)"
    unfolding hdrToSdr_def Let_def t by (simp add: c scale_NaN)
  from first second third show ?thesis by simp
qed

subsection \<open>The tone mapping pipeline\<close>



lemma canonical_decode [simp]: "canonical (decode_spec x)"
  by (simp add: decode_spec_def)

lemma canonical_filmic [simp]: "canonical (filmic_spec x)"
  by (simp add: filmic_spec_def)














subsection \<open>tintFrame\<close>

lemma ToUint8Clamp_clamp [simp]: "ToUint8Clamp (clamp (Fin 0) (Fin 255) v) = ToUint8Clamp v"
  by (cases v) (auto simp: clamp_def)

lemma tint2Mult_negative: "m < Fin 0 \<Longrightarrow> tint2Mult (- m) = \<bar>m\<bar> / Fin 255"
  by (cases m) (auto simp: tint2Mult_def)

lemma tint_channel_negative:
  "m < Fin 0 \<Longrightarrow>
   ToUint8Clamp (clamp (Fin 0) (Fin 255) (lerp (Fin c) (Fin 255 - Fin c) (tint2Mult (- m)))) =
   ToUint8Clamp (tintChannel_spec (Fin c) m)"
  by (simp add: tintChannel_spec_def tint2Mult_negative lerp_def del: Fin_minus)

lemma tint_channel_other:
  "\<not> m < Fin 0 \<Longrightarrow>
   ToUint8Clamp (clamp (Fin 0) (Fin 255) (Math_round (Fin c * tint2Mult m))) =
   ToUint8Clamp (tintChannel_spec (Fin c) m)"
  by (cases m) (auto simp: tintChannel_spec_def tint2Mult_def)

lemma load_in: "k < length d \<Longrightarrow> load d k = byteNum (d ! k)"
  by (simp add: load_def rd_def byteNum_def)

text \<open>
  The call \<^verbatim>\<open>hdrToSdr(10, 10, 10, 2)\<close>, followed through with bounds on every intermediate
  value: a dark grey becomes (6, 6, 6).
\<close>

lemma hdr_dark_grey: "hdrToSdr4 (Fin 10) (Fin 10) (Fin 10) (Fin 2) = (Fin 6, Fin 6, Fin 6)"
proof -
  have l04045: "inrange (678638 / 2 ^ 24) (678639 / 2 ^ 24) (rnd 0.04045)"
    using isDouble_frac [of 678638 24] isDouble_frac [of 678639 24] by (intro rnd_in) simp_all
  have l1292: "inrange (216761630 / 2 ^ 24) (216761631 / 2 ^ 24) (rnd 12.92)"
    using isDouble_frac [of 216761630 24] isDouble_frac [of 216761631 24] by (intro rnd_in) simp_all
  have lA: "inrange (42110812 / 2 ^ 24) (42110813 / 2 ^ 24) (rnd 2.51)"
    using isDouble_frac [of 42110812 24] isDouble_frac [of 42110813 24] by (intro rnd_in) simp_all
  have lB: "inrange (503316 / 2 ^ 24) (503317 / 2 ^ 24) (rnd 0.03)"
    using isDouble_frac [of 503316 24] isDouble_frac [of 503317 24] by (intro rnd_in) simp_all
  have lC: "inrange (40768634 / 2 ^ 24) (40768635 / 2 ^ 24) (rnd 2.43)"
    using isDouble_frac [of 40768634 24] isDouble_frac [of 40768635 24] by (intro rnd_in) simp_all
  have lD: "inrange (9898557 / 2 ^ 24) (9898558 / 2 ^ 24) (rnd 0.59)"
    using isDouble_frac [of 9898557 24] isDouble_frac [of 9898558 24] by (intro rnd_in) simp_all
  have lE: "inrange (2348810 / 2 ^ 24) (2348811 / 2 ^ 24) (rnd 0.14)"
    using isDouble_frac [of 2348810 24] isDouble_frac [of 2348811 24] by (intro rnd_in) simp_all
  have w1: "inrange (3566836 / 2 ^ 24) (3566837 / 2 ^ 24) (rnd 0.2126)"
    using isDouble_frac [of 3566836 24] isDouble_frac [of 3566837 24] by (intro rnd_in) simp_all
  have w2: "inrange (11999064 / 2 ^ 24) (11999065 / 2 ^ 24) (rnd 0.7152)"
    using isDouble_frac [of 11999064 24] isDouble_frac [of 11999065 24] by (intro rnd_in) simp_all
  have w3: "inrange (1211314 / 2 ^ 24) (1211315 / 2 ^ 24) (rnd 0.0722)"
    using isDouble_frac [of 1211314 24] isDouble_frac [of 1211315 24] by (intro rnd_in) simp_all
  have l0031308: "inrange (52526 / 2 ^ 24) (52527 / 2 ^ 24) (rnd 0.0031308)"
    using isDouble_frac [of 52526 24] isDouble_frac [of 52527 24] by (intro rnd_in) simp_all
  have k255: "inrange 255 255 (Fin 255)" by simp
  have k1: "inrange 1 1 (Fin 1)" by simp
  have k0: "inrange 0 0 (Fin 0)" by simp
  have kb: "inrange 10 10 (Fin 10)" by simp
  have ki: "inrange 2 2 (Fin 2)" by simp
  let ?x0 = "Fin 10 / Fin 255"
  have x0: "inrange (657930 / 2 ^ 24) (657931 / 2 ^ 24) ?x0"
    using divide_in [OF kb k255, of "657930 / 2 ^ 24" "657931 / 2 ^ 24"]
      isDouble_frac [of 657930 24] isDouble_frac [of 657931 24] by simp
  let ?x1 = "?x0 / rnd 12.92"
  have x1: "inrange (50923 / 2 ^ 24) (50924 / 2 ^ 24) ?x1"
    using divide_in [OF x0 l1292, of "50923 / 2 ^ 24" "50924 / 2 ^ 24"]
      isDouble_frac [of 50923 24] isDouble_frac [of 50924 24] by simp
  let ?f = "Fin 2 * Fin 1"
  have f: "inrange 2 2 ?f"
    using times_in [OF ki k1, of "2" "2"]
      isDouble_int [of 2] isDouble_int [of 2] by simp
  let ?x2 = "?x1 * ?f"
  have x2: "inrange (101846 / 2 ^ 24) (101848 / 2 ^ 24) ?x2"
    using times_in [OF x1 f, of "101846 / 2 ^ 24" "101848 / 2 ^ 24"]
      isDouble_frac [of 101846 24] isDouble_frac [of 101848 24] by simp
  let ?x3 = "Math_pow ?x2 (Fin 1)"
  have x3: "inrange (101846 / 2 ^ 24) (101848 / 2 ^ 24) ?x3"
    using pow_one_in [OF x2] isDouble_frac [of 101846 24] isDouble_frac [of 101848 24] by simp
  let ?x4 = "?x3 * Fin 1"
  have x4: "inrange (101846 / 2 ^ 24) (101848 / 2 ^ 24) ?x4"
    using times_in [OF x3 k1, of "101846 / 2 ^ 24" "101848 / 2 ^ 24"]
      isDouble_frac [of 101846 24] isDouble_frac [of 101848 24] by simp
  let ?a1 = "rnd 2.51 * ?x4"
  have a1: "inrange (255633 / 2 ^ 24) (255639 / 2 ^ 24) ?a1"
    using times_in [OF lA x4, of "255633 / 2 ^ 24" "255639 / 2 ^ 24"]
      isDouble_frac [of 255633 24] isDouble_frac [of 255639 24] by simp
  let ?a2 = "?a1 + rnd 0.03"
  have a2: "inrange (758949 / 2 ^ 24) (758956 / 2 ^ 24) ?a2"
    using plus_in [OF a1 lB, of "758949 / 2 ^ 24" "758956 / 2 ^ 24"]
      isDouble_frac [of 758949 24] isDouble_frac [of 758956 24] by simp
  let ?a3 = "?x4 * ?a2"
  have a3: "inrange (4607 / 2 ^ 24) (4608 / 2 ^ 24) ?a3"
    using times_in [OF x4 a2, of "4607 / 2 ^ 24" "4608 / 2 ^ 24"]
      isDouble_frac [of 4607 24] isDouble_frac [of 4608 24] by simp
  let ?b1 = "rnd 2.43 * ?x4"
  have b1: "inrange (247485 / 2 ^ 24) (247491 / 2 ^ 24) ?b1"
    using times_in [OF lC x4, of "247485 / 2 ^ 24" "247491 / 2 ^ 24"]
      isDouble_frac [of 247485 24] isDouble_frac [of 247491 24] by simp
  let ?b2 = "?b1 + rnd 0.59"
  have b2: "inrange (10146042 / 2 ^ 24) (10146049 / 2 ^ 24) ?b2"
    using plus_in [OF b1 lD, of "10146042 / 2 ^ 24" "10146049 / 2 ^ 24"]
      isDouble_frac [of 10146042 24] isDouble_frac [of 10146049 24] by simp
  let ?b3 = "?x4 * ?b2"
  have b3: "inrange (61591 / 2 ^ 24) (61593 / 2 ^ 24) ?b3"
    using times_in [OF x4 b2, of "61591 / 2 ^ 24" "61593 / 2 ^ 24"]
      isDouble_frac [of 61591 24] isDouble_frac [of 61593 24] by simp
  let ?b4 = "?b3 + rnd 0.14"
  have b4: "inrange (2410401 / 2 ^ 24) (2410404 / 2 ^ 24) ?b4"
    using plus_in [OF b3 lE, of "2410401 / 2 ^ 24" "2410404 / 2 ^ 24"]
      isDouble_frac [of 2410401 24] isDouble_frac [of 2410404 24] by simp
  let ?t = "?a3 / ?b4"
  have t: "inrange (32066 / 2 ^ 24) (32074 / 2 ^ 24) ?t"
    using divide_in [OF a3 b4, of "32066 / 2 ^ 24" "32074 / 2 ^ 24"]
      isDouble_frac [of 32066 24] isDouble_frac [of 32074 24] by simp
  let ?x5 = "?t + Fin 0"
  have x5: "inrange (32066 / 2 ^ 24) (32074 / 2 ^ 24) ?x5"
    using plus_in [OF t k0, of "32066 / 2 ^ 24" "32074 / 2 ^ 24"]
      isDouble_frac [of 32066 24] isDouble_frac [of 32074 24] by simp
  let ?l1 = "rnd 0.2126 * ?x5"
  have l1: "inrange (6817 / 2 ^ 24) (6819 / 2 ^ 24) ?l1"
    using times_in [OF w1 x5, of "6817 / 2 ^ 24" "6819 / 2 ^ 24"]
      isDouble_frac [of 6817 24] isDouble_frac [of 6819 24] by simp
  let ?l2 = "rnd 0.7152 * ?x5"
  have l2: "inrange (22933 / 2 ^ 24) (22940 / 2 ^ 24) ?l2"
    using times_in [OF w2 x5, of "22933 / 2 ^ 24" "22940 / 2 ^ 24"]
      isDouble_frac [of 22933 24] isDouble_frac [of 22940 24] by simp
  let ?l3 = "?l1 + ?l2"
  have l3: "inrange (29750 / 2 ^ 24) (29759 / 2 ^ 24) ?l3"
    using plus_in [OF l1 l2, of "29750 / 2 ^ 24" "29759 / 2 ^ 24"]
      isDouble_frac [of 29750 24] isDouble_frac [of 29759 24] by simp
  let ?l4 = "rnd 0.0722 * ?x5"
  have l4: "inrange (2315 / 2 ^ 24) (2316 / 2 ^ 24) ?l4"
    using times_in [OF w3 x5, of "2315 / 2 ^ 24" "2316 / 2 ^ 24"]
      isDouble_frac [of 2315 24] isDouble_frac [of 2316 24] by simp
  let ?L = "?l3 + ?l4"
  have L: "inrange (32065 / 2 ^ 24) (32075 / 2 ^ 24) ?L"
    using plus_in [OF l3 l4, of "32065 / 2 ^ 24" "32075 / 2 ^ 24"]
      isDouble_frac [of 32065 24] isDouble_frac [of 32075 24] by simp
  let ?s1 = "?x5 - ?L"
  have s1: "inrange (- (9 / 2 ^ 24)) (9 / 2 ^ 24) ?s1"
    using minus_in [OF x5 L, of "- (9 / 2 ^ 24)" "9 / 2 ^ 24"]
      isDouble_frac [of "- 9" 24] isDouble_frac [of 9 24] by simp
  let ?s2 = "Fin 1 * ?s1"
  have s2: "inrange (- (9 / 2 ^ 24)) (9 / 2 ^ 24) ?s2"
    using one_times_in [OF s1] isDouble_frac [of "- 9" 24] isDouble_frac [of 9 24] by simp
  let ?x6 = "?L + ?s2"
  have x6: "inrange (32056 / 2 ^ 24) (32084 / 2 ^ 24) ?x6"
    using plus_in [OF L s2, of "32056 / 2 ^ 24" "32084 / 2 ^ 24"]
      isDouble_frac [of 32056 24] isDouble_frac [of 32084 24] by simp
  let ?x7 = "?x6 * rnd 12.92"
  have x7: "inrange (414163 / 2 ^ 24) (414526 / 2 ^ 24) ?x7"
    using times_in [OF x6 l1292, of "414163 / 2 ^ 24" "414526 / 2 ^ 24"]
      isDouble_frac [of 414163 24] isDouble_frac [of 414526 24] by simp
  let ?x8 = "?x7 * Fin 255"
  have x8: "inrange (105611565 / 2 ^ 24) (105704130 / 2 ^ 24) ?x8"
    using times_in [OF x7 k255, of "105611565 / 2 ^ 24" "105704130 / 2 ^ 24"]
      isDouble_frac [of 105611565 24] isDouble_frac [of 105704130 24] by simp
  have s: "sRGBToLinear ?x0 = ?x1"
    using le_in [OF x0 l04045] by (simp add: sRGBToLinear_def)
  have c: "clamp (Fin 0) (Fin 1) ?x6 = ?x6"
    using clamp_in [OF x6] by simp
  have e: "linearToSRGB ?x6 = ?x7"
    using le_in [OF x6 l0031308] by (simp add: linearToSRGB_def)
  have r: "Math_round ?x8 = Fin 6"
    using round_in [OF x8, of 6] by simp
  show ?thesis
    unfolding hdrToSdr4_def hdrToSdr_def Let_def exposureDefault_def contrastDefault_def
      saturationDefault_def highlightCompressionDefault_def shadowLiftingDefault_def
      tonemap_def toneA_def toneB_def toneC_def toneD_def toneE_def s c e r ..
qed

lemma tint_inverted_half: "ToUint8Clamp (tintChannel_spec (byteNum 100) (Fin (- (255 / 2)))) = 128"
proof -
  have d: "isDouble 155" "isDouble 55" "isDouble (55 / 2)" "isDouble (255 / 2)"
    using isDouble_int [of 155] isDouble_int [of 55] isDouble_frac [of 55 1] isDouble_frac [of 255 1]
    by simp_all
  have "tintChannel_spec (Fin 100) (Fin (- (255 / 2))) = Fin (255 / 2)"
    by (simp add: tintChannel_spec_def rnd_half rnd_exact d)
  then show ?thesis by (simp add: byteNum_def roundHalfEven_def)
qed

lemma tint_half: "ToUint8Clamp (tintChannel_spec (byteNum 50) (Fin (255 / 2))) = 25"
proof -
  have d: "isDouble 25" using isDouble_int [of 25] by simp
  have "tintChannel_spec (Fin 50) (Fin (255 / 2)) = Fin 25"
    by (simp add: tintChannel_spec_def rnd_half rnd_exact d)
  then show ?thesis by (simp add: byteNum_def roundHalfEven_def)
qed

lemma tint_rounded_down: "ToUint8Clamp (tintChannel_spec (byteNum 85) (Fin (147 / 2))) = 24"
proof -
  have q: "Fin (147 / 2) / Fin 255 = Fin (2596192726366521 / 2 ^ 53)"
  proof -
    have "roundHalfEven ((147 / 2 / 255) / pow2 (- 2 - 52)) = 5192385452733042"
      by (simp add: roundHalfEven_def)
    from rnd_eval [OF _ _ _ _ this] show ?thesis by simp
  qed
  have p: "Fin 85 * Fin (2596192726366521 / 2 ^ 53) = Fin (6896136929411071 / 2 ^ 48)"
  proof -
    have "roundHalfEven ((85 * (2596192726366521 / 2 ^ 53)) / pow2 (4 - 52)) = 6896136929411071"
      by (simp add: roundHalfEven_def)
    from rnd_eval [OF _ _ _ _ this] show ?thesis by simp
  qed
  have "tintChannel_spec (Fin 85) (Fin (147 / 2)) = Fin 24"
    unfolding tintChannel_spec_def q p by simp
  then show ?thesis by (simp add: byteNum_def roundHalfEven_def)
qed

lemma tint_inverted_part: "ToUint8Clamp (tintChannel_spec (byteNum 0) (Fin (- 10))) = 10"
proof -
  have k: "inrange 10 10 (Fin 10)" "inrange 255 255 (Fin 255)" "inrange 0 0 (Fin 0)" by simp_all
  have t: "inrange (40 / 2 ^ 10) (41 / 2 ^ 10) (Fin 10 / Fin 255)"
    using divide_in [OF k(1,2), of "40 / 2 ^ 10" "41 / 2 ^ 10"]
      isDouble_frac [of 40 10] isDouble_frac [of 41 10] by simp
  have m: "inrange (39 / 2 ^ 2) (41 / 2 ^ 2) (Fin 255 * (Fin 10 / Fin 255))"
    using times_in [OF k(2) t, of "39 / 2 ^ 2" "41 / 2 ^ 2"]
      isDouble_frac [of 39 2] isDouble_frac [of 41 2] by simp
  have "inrange (39 / 2 ^ 2) (41 / 2 ^ 2) (Fin 0 + Fin 255 * (Fin 10 / Fin 255))"
    using plus_in [OF k(3) m, of "39 / 2 ^ 2" "41 / 2 ^ 2"]
      isDouble_frac [of 39 2] isDouble_frac [of 41 2] by simp
  from store_round [OF this, of 10]
  have "ToUint8Clamp (Fin 0 + Fin 255 * (Fin 10 / Fin 255)) = 10" by simp
  moreover have "Fin 255 - Fin 0 - Fin 0 = Fin 255"
    using isDouble_int [of 255] by (simp add: rnd_exact)
  ultimately show ?thesis by (simp add: tintChannel_spec_def byteNum_def del: Fin_minus)
qed

lemma tint_half_20: "ToUint8Clamp (tintChannel_spec (byteNum 20) (Fin (255 / 2))) = 10"
proof -
  have d: "isDouble 10" using isDouble_int [of 10] by simp
  have "tintChannel_spec (Fin 20) (Fin (255 / 2)) = Fin 10"
    by (simp add: tintChannel_spec_def rnd_half rnd_exact d)
  then show ?thesis by (simp add: byteNum_def roundHalfEven_def)
qed

lemma tint_whole: "ToUint8Clamp (tintChannel_spec (byteNum 10) (Fin 255)) = 10"
proof -
  have d: "isDouble 10" using isDouble_int [of 10] by simp
  have "tintChannel_spec (Fin 10) (Fin 255) = Fin 10"
    by (simp add: tintChannel_spec_def rnd_exact d)
  then show ?thesis by (simp add: byteNum_def roundHalfEven_def)
qed

text \<open>
  C6. On a frame inside the buffer, \<^verbatim>\<open>tintFrame\<close> replaces R, G and B by the tint of
  the specification, stored as bytes; when the intensity is not 1 it then replaces them by
  the bytes of \<^verbatim>\<open>hdrToSdr\<close> of the three tinted bytes with that intensity; the alpha byte
  and the length of the buffer stay as they were.
\<close>

theorem tintFrame_channels:
  assumes "i + 3 < length d"
  shows "(let R = ToUint8Clamp (tintChannel_spec (byteNum (d ! i)) r);
              G = ToUint8Clamp (tintChannel_spec (byteNum (d ! (i + 1))) g);
              B = ToUint8Clamp (tintChannel_spec (byteNum (d ! (i + 2))) b);
              tinted = d[i := R, i + 1 := G, i + 2 := B]
          in tintFrame d r g b intensity i =
               (if intensity \<noteq> Fin 1
                then (case hdrToSdr4 (byteNum R) (byteNum G) (byteNum B) intensity of
                        (hr, hg, hb) \<Rightarrow>
                          tinted[i := ToUint8Clamp hr, i + 1 := ToUint8Clamp hg, i + 2 := ToUint8Clamp hb])
                else tinted) \<and>
             tintFrame d r g b intensity i ! (i + 3) = d ! (i + 3) \<and>
             length (tintFrame d r g b intensity i) = length d)"
proof -
  let ?R = "ToUint8Clamp (tintChannel_spec (byteNum (d ! i)) r)"
  let ?G = "ToUint8Clamp (tintChannel_spec (byteNum (d ! (i + 1))) g)"
  let ?B = "ToUint8Clamp (tintChannel_spec (byteNum (d ! (i + 2))) b)"
  let ?d1 = "d[i := ?R]"
  let ?d2 = "?d1[i + 1 := ?G]"
  let ?d3 = "?d2[i + 2 := ?B]"
  have l: "i < length d" "i + 1 < length d" "i + 2 < length d" using assms by simp_all
  have s1: "(if r < Fin 0
             then store d i (clamp (Fin 0) (Fin 255) (lerp (load d i) (Fin 255 - load d i) (tint2Mult (- r))))
             else store d i (clamp (Fin 0) (Fin 255) (Math_round (load d i * tint2Mult r)))) = ?d1"
    using tint_channel_negative [of r "real (unat (d ! i))"] tint_channel_other [of r "real (unat (d ! i))"]
    by (simp add: store_def load_in [OF l(1)] byteNum_def del: Fin_minus ToUint8Clamp_clamp)
  have ld2: "load ?d1 (i + 1) = byteNum (d ! (i + 1))"
    using l by (simp add: load_in)
  have s2: "(if g < Fin 0
             then store ?d1 (i + 1) (clamp (Fin 0) (Fin 255)
                    (lerp (load ?d1 (i + 1)) (Fin 255 - load ?d1 (i + 1)) (tint2Mult (- g))))
             else store ?d1 (i + 1) (clamp (Fin 0) (Fin 255) (Math_round (load ?d1 (i + 1) * tint2Mult g)))) = ?d2"
    unfolding ld2
    using tint_channel_negative [of g "real (unat (d ! (i + 1)))"] tint_channel_other [of g "real (unat (d ! (i + 1)))"]
    by (simp add: store_def byteNum_def del: Fin_minus ToUint8Clamp_clamp)
  have ld3: "load ?d2 (i + 2) = byteNum (d ! (i + 2))"
    using l by (simp add: load_in)
  have s3: "(if b < Fin 0
             then store ?d2 (i + 2) (clamp (Fin 0) (Fin 255)
                    (lerp (load ?d2 (i + 2)) (Fin 255 - load ?d2 (i + 2)) (tint2Mult (- b))))
             else store ?d2 (i + 2) (clamp (Fin 0) (Fin 255) (Math_round (load ?d2 (i + 2) * tint2Mult b)))) = ?d3"
    unfolding ld3
    using tint_channel_negative [of b "real (unat (d ! (i + 2)))"] tint_channel_other [of b "real (unat (d ! (i + 2)))"]
    by (simp add: store_def byteNum_def del: Fin_minus ToUint8Clamp_clamp)
  have ld: "load ?d3 i = byteNum ?R" "load ?d3 (i + 1) = byteNum ?G" "load ?d3 (i + 2) = byteNum ?B"
    using l by (simp_all add: load_in)
  have eq: "tintFrame d r g b intensity i =
      (if intensity \<noteq> Fin 1
       then (case hdrToSdr4 (byteNum ?R) (byteNum ?G) (byteNum ?B) intensity of
               (hr, hg, hb) \<Rightarrow>
                 ?d3[i := ToUint8Clamp hr, i + 1 := ToUint8Clamp hg, i + 2 := ToUint8Clamp hb])
       else ?d3)"
    unfolding tintFrame_def Let_def s1 s2 s3 ld
    by (simp add: store_def split: prod.splits)
  have a: "tintFrame d r g b intensity i ! (i + 3) = d ! (i + 3)"
    unfolding eq by (simp split: prod.splits)
  have n: "length (tintFrame d r g b intensity i) = length d"
    unfolding eq by (simp split: prod.splits)
  show ?thesis
    unfolding Let_def using eq a n by simp
qed

theorem tintFrame_channels_witness:
  "tintFrame [100, 50, 85, 255] (Fin (- (255 / 2))) (Fin (255 / 2)) (Fin (147 / 2)) (Fin 1) 0 =
     [128, 25, 24, 255] \<and>
   tintFrame [0, 20, 10, 200] (Fin (- 10)) (Fin (255 / 2)) (Fin 255) (Fin 2) 0 = [6, 6, 6, 200]"
proof
  have h: "0 + 3 < length [100, 50, 85, 255 :: byte]" by simp
  from tintFrame_channels [OF h, of "Fin (- (255 / 2))" "Fin (255 / 2)" "Fin (147 / 2)" "Fin 1"]
  show "tintFrame [100, 50, 85, 255] (Fin (- (255 / 2))) (Fin (255 / 2)) (Fin (147 / 2)) (Fin 1) 0 =
     [128, 25, 24, 255]"
    by (simp add: Let_def tint_inverted_half tint_half tint_rounded_down)
next
  have h: "0 + 3 < length [0, 20, 10, 200 :: byte]" by simp
  have b: "hdrToSdr4 (byteNum 10) (byteNum 10) (byteNum 10) (Fin 2) = (Fin 6, Fin 6, Fin 6)"
    using hdr_dark_grey by (simp add: byteNum_def)
  have s: "roundHalfEven 6 = 6" using roundHalfEven_int [of 6] by simp
  from tintFrame_channels [OF h, of "Fin (- 10)" "Fin (255 / 2)" "Fin 255" "Fin 2"]
  show "tintFrame [0, 20, 10, 200] (Fin (- 10)) (Fin (255 / 2)) (Fin 255) (Fin 2) 0 = [6, 6, 6, 200]"
    by (simp add: Let_def tint_inverted_part tint_half_20 tint_whole b s)
qed

subsection \<open>unpack, and pack followed by unpack\<close>

lemma unpack_colours:
  assumes "length (data ctx) = 4 * width ctx * height ctx" and "p < width ctx * height ctx"
  shows "(case unpack ctx of (rCanvas, gCanvas, bCanvas, aCanvas) \<Rightarrow>
           width rCanvas = width ctx \<and> height rCanvas = height ctx \<and>
           width gCanvas = width ctx \<and> height gCanvas = height ctx \<and>
           width bCanvas = width ctx \<and> height bCanvas = height ctx \<and>
           data rCanvas ! (4 * p) = data ctx ! (4 * p) \<and> data rCanvas ! (4 * p + 1) = 0 \<and>
           data rCanvas ! (4 * p + 2) = 0 \<and> data rCanvas ! (4 * p + 3) = 255 \<and>
           data gCanvas ! (4 * p) = 0 \<and> data gCanvas ! (4 * p + 1) = data ctx ! (4 * p + 1) \<and>
           data gCanvas ! (4 * p + 2) = 0 \<and> data gCanvas ! (4 * p + 3) = 255 \<and>
           data bCanvas ! (4 * p) = 0 \<and> data bCanvas ! (4 * p + 1) = 0 \<and>
           data bCanvas ! (4 * p + 2) = data ctx ! (4 * p + 2) \<and> data bCanvas ! (4 * p + 3) = 255 \<and>
           data aCanvas ! (4 * p + 3) = 255)"
proof -
  let ?n = "4 * width ctx * height ctx"
  obtain r g b a where
    l: "unpackLoop ?n 0 (data ctx, data ctx, data ctx, data ctx) = (r, g, b, a)"
    by (metis prod_cases4)
  have d: "4 dvd (0::nat)" "4 dvd ?n" by simp_all
  have j: "4 * p < ?n" "4 * p + 1 < ?n" "4 * p + 2 < ?n" "4 * p + 3 < ?n"
    using assms(2) by simp_all
  have m: "(4 * p) mod 4 = 0" "(4 * p + 1) mod 4 = 1" "(4 * p + 2) mod 4 = 2" "(4 * p + 3) mod 4 = 3"
    by presburger+
  note c = unpackLoop_rgb [OF l d assms(1) assms(1) assms(1)]
  show ?thesis
    unfolding unpack_wf [OF assms(1) l]
    using c [OF j(1)] c [OF j(2)] c [OF j(3)] c [OF j(4)] m
      unpackLoop_alpha [OF l d(2) assms(1) j(4)]
    by simp
qed


lemma constantBuffer_simps [simp]:
  "width (constantBuffer w h colour) = w" "height (constantBuffer w h colour) = h"
  "length (data (constantBuffer w h colour)) = 4 * w * h"
  by (simp_all add: constantBuffer_def)

lemma constantBuffer_nth:
  "k < 4 * w * h \<Longrightarrow> data (constantBuffer w h colour) ! k = colour (k mod 4)"
  by (simp add: constantBuffer_def)

lemma getImageData_constantBuffer:
  "getImageData (constantBuffer w h colour) 0 0 (int w) (int h) = constantBuffer w h colour"
  using getImageData_full [of "constantBuffer w h colour"]
  by (simp add: map_byteAt)

lemma packPrepare_four:
  "packPrepare drawImage w h 0
     [(constantBuffer w h c1, [(''R'', s1)]), (constantBuffer w h c2, [(''G'', s2)]),
      (constantBuffer w h c3, [(''B'', s3)]), (constantBuffer w h c4, [(''A'', s4)])] [] [] =
   ([(constantBuffer w h c1, [(''R'', s1)]), (constantBuffer w h c2, [(''G'', s2)]),
     (constantBuffer w h c3, [(''B'', s3)]), (constantBuffer w h c4, [(''A'', s4)])],
    [''R'', ''G'', ''B'', ''A''], [])"
  by (simp add: packPrepare.simps)

lemma packImages_four:
  assumes "channelIndexes s1 = Some k1" "channelIndexes s2 = Some k2"
    "channelIndexes s3 = Some k3" "channelIndexes s4 = Some k4"
  shows "packImages
     [((x1, [(''R'', s1)]), m1), ((x2, [(''G'', s2)]), m2),
      ((x3, [(''B'', s3)]), m3), ((x4, [(''A'', s4)]), m4)] i d =
     wr (wr (wr (wr d i (rd (data m1) (i + k1))) (i + 1) (rd (data m2) (i + k2)))
            (i + 2) (rd (data m3) (i + k3))) (i + 3) (rd (data m4) (i + k4))"
  using assms by (simp add: channelIndexes_def)

lemma packLoop_step:
  "i < n \<Longrightarrow> packLoop images n i d = packLoop images n (i + 4) (packImages images i d)"
  by (subst packLoop.simps) simp

lemma packLoop_done: "\<not> i < n \<Longrightarrow> packLoop images n i d = d"
  by (subst packLoop.simps) simp

lemma packLoop_nth:
  assumes step: "\<And>i d. packImages images i d =
       wr (wr (wr (wr d i (rd a1 (i + k1))) (i + 1) (rd a2 (i + k2)))
              (i + 2) (rd a3 (i + k3))) (i + 3) (rd a4 (i + k4))"
    and "4 dvd i" and "4 dvd n" and "length d = n" and "j < n"
  shows "length (packLoop images n i d) = n \<and>
     packLoop images n i d ! j =
       (if i \<le> j
        then undef0 (if j mod 4 = 0 then rd a1 (j + k1) else if j mod 4 = 1 then rd a2 (j - 1 + k2)
                     else if j mod 4 = 2 then rd a3 (j - 2 + k3) else rd a4 (j - 3 + k4))
        else d ! j)"
  using assms(2-)
proof (induction "n - i" arbitrary: i d rule: less_induct)
  case less
  show ?case
  proof (cases "i < n")
    case True
    have m: "n - (i + 4) < n - i" using True by simp
    have d4: "4 dvd i + 4" using less.prems(1) by simp
    from True less.prems(1,2) have i3: "i + 3 < n" by presburger
    note mods = frame_mods [OF less.prems(1)]
    let ?d1 = "packImages images i d"
    have len: "length ?d1 = n" using less.prems(3) by (simp add: step)
    note IH = less.hyps [OF m d4 less.prems(2) len less.prems(4)]
    show ?thesis
      unfolding packLoop_step [OF True]
      by (rule frame_cases [of j i])
         (use IH i3 mods less.prems(3,4) in \<open>simp_all add: step nth_wr\<close>)
  next
    case False
    with less.prems show ?thesis by (simp add: packLoop_done)
  qed
qed


lemma pack_four:
  assumes "channelIndexes s1 = Some k1" "channelIndexes s2 = Some k2"
    "channelIndexes s3 = Some k3" "channelIndexes s4 = Some k4"
  shows "\<exists>packedData.
     pack drawImage
       [(constantBuffer w h c1, [(''R'', s1)]), (constantBuffer w h c2, [(''G'', s2)]),
        (constantBuffer w h c3, [(''B'', s3)]), (constantBuffer w h c4, [(''A'', s4)])] w h =
       (\<lparr>width = w, height = h, data = packedData\<rparr>, []) \<and>
     length packedData = 4 * w * h \<and>
     (\<forall>p < w * h. packedData ! (4 * p) = c1 k1 \<and> packedData ! (4 * p + 1) = c2 k2 \<and>
                   packedData ! (4 * p + 2) = c3 k3 \<and> packedData ! (4 * p + 3) = c4 k4)"
proof -
  let ?n = "4 * w * h"
  let ?images = "[(constantBuffer w h c1, [(''R'', s1)]), (constantBuffer w h c2, [(''G'', s2)]),
        (constantBuffer w h c3, [(''B'', s3)]), (constantBuffer w h c4, [(''A'', s4)])]"
  let ?zipped = "[((constantBuffer w h c1, [(''R'', s1)]), constantBuffer w h c1),
        ((constantBuffer w h c2, [(''G'', s2)]), constantBuffer w h c2),
        ((constantBuffer w h c3, [(''B'', s3)]), constantBuffer w h c3),
        ((constantBuffer w h c4, [(''A'', s4)]), constantBuffer w h c4)]"
  let ?D = "packLoop ?zipped ?n 0 (replicate ?n 0)"
  have k: "k1 \<le> 3" "k2 \<le> 3" "k3 \<le> 3" "k4 \<le> 3"
    using assms channelIndexes_cases by fastforce+
  have d: "4 dvd (0::nat)" "4 dvd ?n" "length (replicate ?n (0::byte)) = ?n" by simp_all
  note nth = packLoop_nth [of ?zipped, OF packImages_four [OF assms] d]
  have len: "length ?D = ?n"
  proof (cases "?n = 0")
    case True
    then show ?thesis by (simp add: packLoop_done)
  next
    case False
    then have "0 < ?n" by simp
    from nth [OF this] show ?thesis by simp
  qed
  have blank: "getImageData (createCanvas w h) 0 0 (int w) (int h) =
      \<lparr>width = w, height = h, data = replicate ?n 0\<rparr>"
    using getImageData_full [of "createCanvas w h"]
    by (simp add: createCanvas_def map_byteAt)
  have res: "pack drawImage ?images w h = (\<lparr>width = w, height = h, data = ?D\<rparr>, [])"
    unfolding pack_def Let_def blank packPrepare_four
    using len by (simp add: getImageData_constantBuffer putImageData_full map_byteAt)
  have px: "?D ! (4 * p) = c1 k1 \<and> ?D ! (4 * p + 1) = c2 k2 \<and>
            ?D ! (4 * p + 2) = c3 k3 \<and> ?D ! (4 * p + 3) = c4 k4" if p: "p < w * h" for p
  proof -
    have j: "4 * p < ?n" "4 * p + 1 < ?n" "4 * p + 2 < ?n" "4 * p + 3 < ?n"
      "4 * p + k1 < ?n" "4 * p + k2 < ?n" "4 * p + k3 < ?n" "4 * p + k4 < ?n"
      using p k by simp_all
    have m: "(4 * p) mod 4 = 0" "(4 * p + 1) mod 4 = 1" "(4 * p + 2) mod 4 = 2" "(4 * p + 3) mod 4 = 3"
      "(4 * p + k1) mod 4 = k1" "(4 * p + k2) mod 4 = k2" "(4 * p + k3) mod 4 = k3" "(4 * p + k4) mod 4 = k4"
      using k by presburger+
    show ?thesis
      using nth [OF j(1)] nth [OF j(2)] nth [OF j(3)] nth [OF j(4)] m j(5-8)
      by (simp add: rd_def undef0_def constantBuffer_nth)
  qed
  from res len px show ?thesis by blast
qed

text \<open>
  C2, as written, fails: only the alpha output is meant to be grey. The R output keeps the R
  byte of each pixel and gets 0, not the R byte, in G and B; likewise the G and B outputs.
\<close>

theorem unpack_colour_outputs_not_grey:
  "(case unpack \<lparr>width = 1, height = 1, data = [10, 20, 30, 40]\<rparr> of
      (rCanvas, gCanvas, bCanvas, aCanvas) \<Rightarrow>
        data rCanvas = [10, 0, 0, 255] \<and> data gCanvas = [0, 20, 0, 255] \<and>
        data bCanvas = [0, 0, 30, 255])"
  by code_simp

text \<open>
  C2, amended. For a context whose data has 4 * width * height bytes, the R, G and B outputs
  of \<^verbatim>\<open>unpack\<close> have the size of the input and, at every pixel, their own channel as in
  the input, 0 in the two other colour channels and 255 in alpha; the alpha output has 255
  in alpha. In particular, after packing four buffers of constant colour into R, G, B and A
  (each from any of its channels), the R, G and B outputs of \<^verbatim>\<open>unpack\<close> hold, in their own
  channel, the constant that was packed there. The colour bytes of the alpha output are left
  out here.
\<close>

theorem unpack_keeps_own_channel:
  "(length (data ctx) = 4 * width ctx * height ctx \<and> p < width ctx * height ctx \<longrightarrow>
     (case unpack ctx of (rCanvas, gCanvas, bCanvas, aCanvas) \<Rightarrow>
        width rCanvas = width ctx \<and> height rCanvas = height ctx \<and>
        width gCanvas = width ctx \<and> height gCanvas = height ctx \<and>
        width bCanvas = width ctx \<and> height bCanvas = height ctx \<and>
        data rCanvas ! (4 * p) = data ctx ! (4 * p) \<and> data rCanvas ! (4 * p + 1) = 0 \<and>
        data rCanvas ! (4 * p + 2) = 0 \<and> data rCanvas ! (4 * p + 3) = 255 \<and>
        data gCanvas ! (4 * p) = 0 \<and> data gCanvas ! (4 * p + 1) = data ctx ! (4 * p + 1) \<and>
        data gCanvas ! (4 * p + 2) = 0 \<and> data gCanvas ! (4 * p + 3) = 255 \<and>
        data bCanvas ! (4 * p) = 0 \<and> data bCanvas ! (4 * p + 1) = 0 \<and>
        data bCanvas ! (4 * p + 2) = data ctx ! (4 * p + 2) \<and> data bCanvas ! (4 * p + 3) = 255 \<and>
        data aCanvas ! (4 * p + 3) = 255)) \<and>
   (q < w * h \<and> channelIndexes s1 = Some k1 \<and> channelIndexes s2 = Some k2 \<and>
    channelIndexes s3 = Some k3 \<and> channelIndexes s4 = Some k4 \<longrightarrow>
     (case pack drawImage
             [(constantBuffer w h c1, [(''R'', s1)]), (constantBuffer w h c2, [(''G'', s2)]),
              (constantBuffer w h c3, [(''B'', s3)]), (constantBuffer w h c4, [(''A'', s4)])] w h of
        (packed, warned) \<Rightarrow>
          (case unpack packed of (rCanvas, gCanvas, bCanvas, aCanvas) \<Rightarrow>
             data rCanvas ! (4 * q) = c1 k1 \<and> data rCanvas ! (4 * q + 1) = 0 \<and>
             data rCanvas ! (4 * q + 2) = 0 \<and> data rCanvas ! (4 * q + 3) = 255 \<and>
             data gCanvas ! (4 * q) = 0 \<and> data gCanvas ! (4 * q + 1) = c2 k2 \<and>
             data gCanvas ! (4 * q + 2) = 0 \<and> data gCanvas ! (4 * q + 3) = 255 \<and>
             data bCanvas ! (4 * q) = 0 \<and> data bCanvas ! (4 * q + 1) = 0 \<and>
             data bCanvas ! (4 * q + 2) = c3 k3 \<and> data bCanvas ! (4 * q + 3) = 255 \<and>
             data aCanvas ! (4 * q + 3) = 255)))"
proof (intro conjI impI, goal_cases)
  case 1
  then show ?case by (intro unpack_colours) simp_all
next
  case 2
  from pack_four [of s1 k1 s2 k2 s3 k3 s4 k4 drawImage w h c1 c2 c3 c4] 2
  obtain packedData where
    r: "pack drawImage
       [(constantBuffer w h c1, [(''R'', s1)]), (constantBuffer w h c2, [(''G'', s2)]),
        (constantBuffer w h c3, [(''B'', s3)]), (constantBuffer w h c4, [(''A'', s4)])] w h =
       (\<lparr>width = w, height = h, data = packedData\<rparr>, [])"
    and l: "length packedData = 4 * w * h"
    and px: "packedData ! (4 * q) = c1 k1 \<and> packedData ! (4 * q + 1) = c2 k2 \<and>
             packedData ! (4 * q + 2) = c3 k3 \<and> packedData ! (4 * q + 3) = c4 k4"
    by blast
  from unpack_colours [of "\<lparr>width = w, height = h, data = packedData\<rparr>" q] l 2 px
  show ?case
    unfolding r by (simp split: prod.splits)
qed

theorem unpack_keeps_own_channel_witness:
  "(case unpack \<lparr>width = 2, height = 1, data = [1, 2, 3, 4, 5, 6, 7, 8]\<rparr> of
      (rCanvas, gCanvas, bCanvas, aCanvas) \<Rightarrow>
        data rCanvas ! 4 = 5 \<and> data rCanvas ! 5 = 0 \<and> data rCanvas ! 6 = 0 \<and> data rCanvas ! 7 = 255 \<and>
        data gCanvas ! 5 = 6 \<and> data bCanvas ! 6 = 7) \<and>
   (case pack (\<lambda>c w h. replicate (4 * w * h) 0)
           [(constantBuffer 1 1 (\<lambda>k. 10), [(''R'', ''R'')]), (constantBuffer 1 1 (\<lambda>k. 20), [(''G'', ''R'')]),
            (constantBuffer 1 1 (\<lambda>k. 30), [(''B'', ''R'')]), (constantBuffer 1 1 (\<lambda>k. 40), [(''A'', ''R'')])]
           1 1 of
      (packed, warned) \<Rightarrow>
        (case unpack packed of (rCanvas, gCanvas, bCanvas, aCanvas) \<Rightarrow>
           data rCanvas ! 0 = 10 \<and> data gCanvas ! 1 = 20 \<and> data bCanvas ! 2 = 30))"
proof -
  have h: "channelIndexes ''R'' = Some 0" by (simp add: channelIndexes_def)
  from unpack_keeps_own_channel
    [where ctx = "\<lparr>width = 2, height = 1, data = [1, 2, 3, 4, 5, 6, 7, 8]\<rparr>" and p = 1
       and q = 0 and w = 1 and h = 1 and ?s1.0 = "''R''" and ?k1.0 = 0 and ?s2.0 = "''R''" and ?k2.0 = 0
       and ?s3.0 = "''R''" and ?k3.0 = 0 and ?s4.0 = "''R''" and ?k4.0 = 0
       and drawImage = "\<lambda>c w h. replicate (4 * w * h) 0"
       and ?c1.0 = "\<lambda>k. 10" and ?c2.0 = "\<lambda>k. 20" and ?c3.0 = "\<lambda>k. 30" and ?c4.0 = "\<lambda>k. 40"] h
  show ?thesis by (simp add: numeral_2_eq_2 split: prod.splits)
qed

subsection \<open>Channel names that are no channel: swizzle, mask and pack\<close>

lemma mask_unknown_channel:
  assumes "length (data base) = 4 * width base * height base"
    and "p < width base * height base"
    and "channelIndexes channel = None"
  shows "mask_image drawImage base imageMask channel =
           base\<lparr>data := data (mask_image drawImage base imageMask channel)\<rparr> \<and>
         length (data (mask_image drawImage base imageMask channel)) = length (data base) \<and>
         data (mask_image drawImage base imageMask channel) ! (4 * p + 3) = 0 \<and>
         data (mask_image drawImage base imageMask channel) ! (4 * p) = data base ! (4 * p) \<and>
         data (mask_image drawImage base imageMask channel) ! (4 * p + 1) = data base ! (4 * p + 1) \<and>
         data (mask_image drawImage base imageMask channel) ! (4 * p + 2) = data base ! (4 * p + 2)"
proof -
  let ?n = "4 * width base * height base"
  define m where "m = data (getImageData
      (if width base \<noteq> width imageMask \<or> height base \<noteq> height imageMask
       then resize drawImage (duplicate imageMask) (width base) (height base)
       else duplicate imageMask) 0 0
      (int (width (if width base \<noteq> width imageMask \<or> height base \<noteq> height imageMask
       then resize drawImage (duplicate imageMask) (width base) (height base)
       else duplicate imageMask)))
      (int (height (if width base \<noteq> width imageMask \<or> height base \<noteq> height imageMask
       then resize drawImage (duplicate imageMask) (width base) (height base)
       else duplicate imageMask))))"
  let ?d = "maskLoop m None ?n 0 (data base)"
  have bd: "getImageData base 0 0 (int (width base)) (int (height base)) =
      \<lparr>width = width base, height = height base, data = data base\<rparr>"
    using assms(1) by (simp add: getImageData_full map_byteAt)
  have res: "mask_image drawImage base imageMask channel = base\<lparr>data := ?d\<rparr>"
    unfolding mask_image_def Let_def bd m_def [symmetric]
    using assms(1,3) by (simp add: putImageData_whole map_byteAt)
  have j: "4 * p < ?n" "4 * p + 1 < ?n" "4 * p + 2 < ?n" "4 * p + 3 < ?n"
    using assms(2) by simp_all
  have mo: "(4 * p) mod 4 = 0" "(4 * p + 1) mod 4 = 1" "(4 * p + 2) mod 4 = 2" "(4 * p + 3) mod 4 = 3"
    by presburger+
  have d4: "4 dvd (0::nat)" "4 dvd ?n" by simp_all
  have a: "?d ! (4 * p + 3) = 0"
    using maskLoop_nth [OF d4 assms(1) j(4), of m None] mo by (simp add: undef0_def)
  have r0: "?d ! (4 * p) = data base ! (4 * p)"
    using maskLoop_nth [OF d4 assms(1) j(1), of m None] mo by simp
  have r1: "?d ! (4 * p + 1) = data base ! (4 * p + 1)"
    using maskLoop_nth [OF d4 assms(1) j(2), of m None] mo by simp
  have r2: "?d ! (4 * p + 2) = data base ! (4 * p + 2)"
    using maskLoop_nth [OF d4 assms(1) j(3), of m None] mo by simp
  show ?thesis
    unfolding res using a r0 r1 r2 by simp
qed

text \<open>
  C8, as written, fails: \<^verbatim>\<open>mask\<close> and \<^verbatim>\<open>pack\<close> have no check of the channel names
  (their parameters are typed \<^verbatim>\<open>Channel\<close>), and \<^verbatim>\<open>swizzle\<close> checks the values of its
  map only. With the name \<^verbatim>\<open>"X"\<close>, \<^verbatim>\<open>mask\<close> returns and has written 0 into every
  alpha byte, \<^verbatim>\<open>swizzle\<close> with the key \<^verbatim>\<open>"X"\<close> returns and has written 0 into the B byte,
  and \<^verbatim>\<open>pack\<close> returns a buffer.
\<close>

theorem invalid_channel_not_rejected:
  "mask_image (\<lambda>c w h. replicate (4 * w * h) 0)
     \<lparr>width = 2, height = 1, data = [1, 2, 3, 4, 5, 6, 7, 8]\<rparr>
     \<lparr>width = 2, height = 1, data = [11, 12, 13, 14, 15, 16, 17, 18]\<rparr> ''X'' =
   \<lparr>width = 2, height = 1, data = [1, 2, 3, 0, 5, 6, 7, 0]\<rparr> \<and>
   swizzle [10, 20, 30, 40] [(''X'', ''B'')] = Inr [10, 20, 0, 40] \<and>
   pack (\<lambda>c w h. replicate (4 * w * h) 0)
     [(\<lparr>width = 1, height = 1, data = [10, 20, 30, 40]\<rparr>, [(''R'', ''R'')]),
      (\<lparr>width = 1, height = 1, data = [50, 60, 70, 80]\<rparr>, [(''G'', ''X''), (''X'', ''B'')])] 1 1 =
   (\<lparr>width = 1, height = 1, data = [10, 0, 0, 0]\<rparr>, [])"
  by code_simp

text \<open>
  C8, amended. \<^verbatim>\<open>swizzle\<close> on a buffer that is not empty raises its error when some
  value of the map (a destination, for the code) is not one of R, G, B, A; when every value
  of the map is a channel, \<^verbatim>\<open>swizzle\<close> raises no error, whatever the keys are.
  \<^verbatim>\<open>mask\<close> and \<^verbatim>\<open>pack\<close> have no error at all: with a channel name that is none of
  R, G, B, A, \<^verbatim>\<open>mask\<close> writes 0 into the alpha byte of every pixel and leaves R, G and B
  alone; in \<^verbatim>\<open>pack\<close>, an entry whose destination is no channel writes nothing, and one
  whose source is no channel writes 0 into its destination.
\<close>

theorem swizzle_rejects_invalid_value_only:
  "(d \<noteq> [] \<and> (\<exists>(s, t) \<in> set opts. channelIndexes t = None) \<longrightarrow>
      swizzle d opts = Inl (Error ''Oh, so we're doing other data channels now'')) \<and>
   ((\<forall>(s, t) \<in> set opts. channelIndexes t \<noteq> None) \<longrightarrow> (\<exists>d'. swizzle d opts = Inr d')) \<and>
   (length (data base) = 4 * width base * height base \<and> p < width base * height base \<and>
    channelIndexes channel = None \<longrightarrow>
      length (data (mask_image drawImage base imageMask channel)) = length (data base) \<and>
      data (mask_image drawImage base imageMask channel) ! (4 * p + 3) = 0 \<and>
      data (mask_image drawImage base imageMask channel) ! (4 * p) = data base ! (4 * p) \<and>
      data (mask_image drawImage base imageMask channel) ! (4 * p + 1) = data base ! (4 * p + 1) \<and>
      data (mask_image drawImage base imageMask channel) ! (4 * p + 2) = data base ! (4 * p + 2)) \<and>
   (channelIndexes to = None \<longrightarrow> packEntries src i [(to, from)] packedData = packedData) \<and>
   (channelIndexes to = Some k \<and> channelIndexes from = None \<longrightarrow>
      packEntries src i [(to, from)] packedData = packedData[i + k := 0])"
proof (intro conjI impI, goal_cases)
  case 1
  then have "swizzleFrame d opts 0 = Inl (Error ''Oh, so we're doing other data channels now'')"
    unfolding swizzleFrame_def by (intro swizzleEntries_invalid) simp
  with 1 show ?case
    unfolding swizzle_def by (subst swizzleFrom.simps) simp
next
  case 2
  then show ?case unfolding swizzle_def by (rule swizzleFrom_no_error)
next
  case 3
  then show ?case using mask_unknown_channel [of base p channel drawImage imageMask] by simp
next
  case 4
  then show ?case using mask_unknown_channel [of base p channel drawImage imageMask] by simp
next
  case 5
  then show ?case using mask_unknown_channel [of base p channel drawImage imageMask] by simp
next
  case 6
  then show ?case using mask_unknown_channel [of base p channel drawImage imageMask] by simp
next
  case 7
  then show ?case using mask_unknown_channel [of base p channel drawImage imageMask] by simp
next
  case 8
  then show ?case by simp
next
  case 9
  then show ?case by (simp add: wr_def)
qed

theorem swizzle_rejects_invalid_value_only_witness:
  "swizzle [10, 20, 30, 40] [(''R'', ''B''), (''G'', ''X'')] =
     Inl (Error ''Oh, so we're doing other data channels now'') \<and>
   (\<exists>d'. swizzle [10, 20, 30, 40] [(''X'', ''B'')] = Inr d') \<and>
   data (mask_image (\<lambda>c w h. replicate (4 * w * h) 0)
     \<lparr>width = 2, height = 1, data = [1, 2, 3, 4, 5, 6, 7, 8]\<rparr>
     \<lparr>width = 2, height = 1, data = [11, 12, 13, 14, 15, 16, 17, 18]\<rparr> ''X'') ! 7 = 0 \<and>
   packEntries [50, 60, 70, 80] 0 [(''X'', ''B'')] [10, 0, 0, 0] = [10, 0, 0, 0] \<and>
   packEntries [50, 60, 70, 80] 0 [(''G'', ''X'')] [10, 9, 0, 0] = [10, 0, 0, 0]"
proof -
  have h1: "[10, 20, 30, 40 :: byte] \<noteq> [] \<and>
      (\<exists>(s, t) \<in> set [(''R'', ''B''), (''G'', ''X'')]. channelIndexes t = None)"
    by (simp add: channelIndexes_def)
  have h2: "\<forall>(s, t) \<in> set [(''X'', ''B'')]. channelIndexes t \<noteq> None"
    by (simp add: channelIndexes_def)
  have h3: "channelIndexes ''X'' = None" "channelIndexes ''G'' = Some 1"
    by (simp_all add: channelIndexes_def)
  note t = swizzle_rejects_invalid_value_only
  from t [where d = "[10, 20, 30, 40]" and opts = "[(''R'', ''B''), (''G'', ''X'')]"] h1
  have a: "swizzle [10, 20, 30, 40] [(''R'', ''B''), (''G'', ''X'')] =
     Inl (Error ''Oh, so we're doing other data channels now'')" by blast
  from t [where d = "[10, 20, 30, 40]" and opts = "[(''X'', ''B'')]"] h2
  have b: "\<exists>d'. swizzle [10, 20, 30, 40] [(''X'', ''B'')] = Inr d'" by blast
  from t [where base = "\<lparr>width = 2, height = 1, data = [1, 2, 3, 4, 5, 6, 7, 8]\<rparr>" and p = 1
      and channel = "''X''" and drawImage = "\<lambda>c w h. replicate (4 * w * h) 0"
      and imageMask = "\<lparr>width = 2, height = 1, data = [11, 12, 13, 14, 15, 16, 17, 18]\<rparr>"] h3(1)
  have c: "data (mask_image (\<lambda>c w h. replicate (4 * w * h) 0)
     \<lparr>width = 2, height = 1, data = [1, 2, 3, 4, 5, 6, 7, 8]\<rparr>
     \<lparr>width = 2, height = 1, data = [11, 12, 13, 14, 15, 16, 17, 18]\<rparr> ''X'') ! 7 = 0"
    by simp
  from t [where to = "''X''" and src = "[50, 60, 70, 80]" and i = 0 and ?from = "''B''"
      and packedData = "[10, 0, 0, 0]"] h3(1)
  have e: "packEntries [50, 60, 70, 80] 0 [(''X'', ''B'')] [10, 0, 0, 0] = [10, 0, 0, 0]"
    by blast
  from t [where to = "''G''" and k = 1 and src = "[50, 60, 70, 80]" and i = 0 and ?from = "''X''"
      and packedData = "[10, 9, 0, 0]"] h3
  have f: "packEntries [50, 60, 70, 80] 0 [(''G'', ''X'')] [10, 9, 0, 0] = [10, 0, 0, 0]"
    by simp
  from a b c e f show ?thesis by simp
qed

end
